theory Spec2Isabelle
  imports Complex_Main "HOL-Library.Log_Nat"
begin

section \<open>Python text and numbers\<close>

text \<open>
  A Python \<open>str\<close> is modelled as a \<open>string\<close>, one \<open>char\<close> per code point; the model
  therefore covers text whose code points are below 256. Exceptions are values of
  \<open>pyerror\<close>; a call that may raise returns \<open>pyerror + 'a\<close> with \<open>Inl\<close> for the raise.
\<close>

datatype pyerror =
    IndexError
  | ValueError
  | OverflowError
  | ZeroDivisionError
  | KeyError string
  | RequestFailed
  | PDBFetchFailed string int
  | JSONDecodeError
  | UnicodeDecodeError

subsection \<open>Slicing, prefixes, whitespace, lines\<close>

definition slice :: "nat \<Rightarrow> nat \<Rightarrow> 'a list \<Rightarrow> 'a list" where
  \<comment> \<open>\<open>s[i:j]\<close> for literal bounds \<open>0 \<le> i \<le> j\<close>; it never raises, it clips at the end\<close>
  "slice i j s = take (j - i) (drop i s)"

definition index :: "'a list \<Rightarrow> nat \<Rightarrow> pyerror + 'a" where
  \<comment> \<open>\<open>s[i]\<close> for a literal \<open>i \<ge> 0\<close>\<close>
  "index s i = (if i < length s then Inr (s ! i) else Inl IndexError)"

definition startswith :: "string \<Rightarrow> string \<Rightarrow> bool" where
  "startswith s p = (take (length p) s = p)"

definition isspace :: "char \<Rightarrow> bool" where
  \<comment> \<open>\<open>str.isspace\<close> below 256: TAB..CR, FS..US, blank, NEL, NBSP\<close>
  "isspace c = (let n = (of_char c :: nat)
     in (9 \<le> n \<and> n \<le> 13) \<or> (28 \<le> n \<and> n \<le> 31) \<or> n = 32 \<or> n = 133 \<or> n = 160)"

definition strip :: "string \<Rightarrow> string" where
  "strip s = rev (dropWhile isspace (rev (dropWhile isspace s)))"

definition is_linebreak :: "char \<Rightarrow> bool" where
  \<comment> \<open>the line boundaries of \<open>str.splitlines\<close> below 256: LF, VT, FF, CR, FS, GS, RS, NEL\<close>
  "is_linebreak c = (let n = (of_char c :: nat)
     in (10 \<le> n \<and> n \<le> 13) \<or> (28 \<le> n \<and> n \<le> 30) \<or> n = 133)"

fun splitlines_from :: "string \<Rightarrow> string \<Rightarrow> string list" where
  \<comment> \<open>first argument: the characters of the current line, latest first\<close>
  "splitlines_from cur [] = (if cur = [] then [] else [rev cur])"
| "splitlines_from cur [c] =
     (if is_linebreak c then [rev cur] else [rev (c # cur)])"
| "splitlines_from cur (c # d # cs) =
     (if c = CHR 0x0D \<and> d = CHR 0x0A then rev cur # splitlines_from [] cs
      else if is_linebreak c then rev cur # splitlines_from [] (d # cs)
      else splitlines_from (c # cur) (d # cs))"

definition splitlines :: "string \<Rightarrow> string list" where
  "splitlines s = splitlines_from [] s"

subsection \<open>Binary64 floating point\<close>

text \<open>
  A Python \<open>float\<close> is an IEEE 754 binary64 value. A finite one is modelled by the
  rational it denotes (so \<open>0.0\<close> and \<open>-0.0\<close>, which Python's \<open>==\<close> identifies, are the
  same value); results of arithmetic are rounded to the nearest representable value,
  ties to even.
\<close>

datatype pyfloat = Dbl rat | PosInf | NegInf | NaN

definition pow2 :: "int \<Rightarrow> rat" where
  "pow2 e = (if 0 \<le> e then 2 ^ nat e else 1 / 2 ^ nat (- e))"

definition round_half_even :: "rat \<Rightarrow> int" where
  "round_half_even q = (let f = \<lfloor>q\<rfloor>; d = q - of_int f
     in if d < 1 / 2 then f else if 1 / 2 < d then f + 1 else if even f then f else f + 1)"

definition binade :: "rat \<Rightarrow> int" where
  \<comment> \<open>for \<open>0 < q\<close>: the \<open>e\<close> with \<open>2 ^ e \<le> q < 2 ^ (e + 1)\<close>\<close>
  "binade q = (if 1 \<le> q then int (floorlog 2 (nat \<lfloor>q\<rfloor>)) - 1
               else - int (floorlog 2 (nat (\<lceil>1 / q\<rceil> - 1))))"

definition round_to_double :: "rat \<Rightarrow> pyfloat" where
  \<comment> \<open>53 significant bits, least exponent -1022 (subnormals below), overflow to infinity\<close>
  "round_to_double q =
     (if q = 0 then Dbl 0
      else let e = max (binade \<bar>q\<bar>) (- 1022);
               u = pow2 (e - 52);
               m = round_half_even (q / u)
           in if 1023 < e \<or> (e = 1023 \<and> 2 ^ 53 \<le> \<bar>m\<bar>)
              then (if 0 < q then PosInf else NegInf)
              else Dbl (of_int m * u))"

definition float_of_int :: "int \<Rightarrow> pyerror + pyfloat" where
  \<comment> \<open>the conversion of an \<open>int\<close> operand of a float operation: correctly rounded,
      \<open>OverflowError: int too large to convert to float\<close> beyond the finite range\<close>
  "float_of_int n = (case round_to_double (of_int n) of
       Dbl r \<Rightarrow> Inr (Dbl r)
     | _ \<Rightarrow> Inl OverflowError)"

fun float_truediv :: "pyfloat \<Rightarrow> pyfloat \<Rightarrow> pyerror + pyfloat" where
  "float_truediv a (Dbl b) =
     (if b = 0 then Inl ZeroDivisionError
      else case a of
          Dbl q \<Rightarrow> Inr (round_to_double (q / b))
        | PosInf \<Rightarrow> Inr (if 0 < b then PosInf else NegInf)
        | NegInf \<Rightarrow> Inr (if 0 < b then NegInf else PosInf)
        | NaN \<Rightarrow> Inr NaN)"
| "float_truediv (Dbl q) PosInf = Inr (Dbl 0)"
| "float_truediv (Dbl q) NegInf = Inr (Dbl 0)"
| "float_truediv a b = Inr NaN"

fun float_mul :: "pyfloat \<Rightarrow> pyfloat \<Rightarrow> pyfloat" where
  "float_mul (Dbl a) (Dbl b) = round_to_double (a * b)"
| "float_mul NaN b = NaN"
| "float_mul a NaN = NaN"
| "float_mul (Dbl a) PosInf = (if a = 0 then NaN else if 0 < a then PosInf else NegInf)"
| "float_mul (Dbl a) NegInf = (if a = 0 then NaN else if 0 < a then NegInf else PosInf)"
| "float_mul PosInf (Dbl b) = (if b = 0 then NaN else if 0 < b then PosInf else NegInf)"
| "float_mul NegInf (Dbl b) = (if b = 0 then NaN else if 0 < b then NegInf else PosInf)"
| "float_mul PosInf PosInf = PosInf"
| "float_mul PosInf NegInf = NegInf"
| "float_mul NegInf PosInf = NegInf"
| "float_mul NegInf NegInf = PosInf"

subsection \<open>The built-in conversions \<open>int(str)\<close> and \<open>float(str)\<close>\<close>

text \<open>
  Both conversions first turn the non-ASCII blanks (NEL, NBSP) into a blank, skip the
  C-locale white space (TAB..CR and blank) at both ends, and accept single underscores
  between digits. They raise \<open>ValueError\<close> on any other text. \<open>float\<close> also accepts
  \<open>inf\<close>, \<open>infinity\<close> and \<open>nan\<close> in any case, and rounds a decimal literal to the nearest
  binary64 value (a literal beyond the range gives an infinity, not an error).
\<close>

definition ascii_isspace :: "char \<Rightarrow> bool" where
  "ascii_isspace c = (let n = (of_char c :: nat) in (9 \<le> n \<and> n \<le> 13) \<or> n = 32)"

definition fold_space :: "char \<Rightarrow> char" where
  "fold_space c = (let n = (of_char c :: nat) in if n = 133 \<or> n = 160 then CHR '' '' else c)"

definition strip_ascii :: "string \<Rightarrow> string" where
  "strip_ascii s = rev (dropWhile ascii_isspace (rev (dropWhile ascii_isspace s)))"

definition isdigit :: "char \<Rightarrow> bool" where
  "isdigit c = (let n = (of_char c :: nat) in 48 \<le> n \<and> n \<le> 57)"

definition digits_value :: "string \<Rightarrow> int" where
  "digits_value ds = foldl (\<lambda>acc c. 10 * acc + (of_char c - 48)) 0 ds"

fun ungroup_from :: "char \<Rightarrow> string \<Rightarrow> string option" where
  \<comment> \<open>drops the underscores; each must stand between two digits (first argument: the
      character before)\<close>
  "ungroup_from p [] = Some []"
| "ungroup_from p (c # cs) =
     (if c = CHR ''_''
      then (case cs of
              [] \<Rightarrow> None
            | d # _ \<Rightarrow> if isdigit p \<and> isdigit d then ungroup_from c cs else None)
      else map_option ((#) c) (ungroup_from c cs))"

definition ungroup :: "string \<Rightarrow> string option" where
  "ungroup s = ungroup_from (CHR '' '') s"

definition split_sign :: "string \<Rightarrow> bool \<times> string" where
  \<comment> \<open>an optional sign; \<open>True\<close> for minus\<close>
  "split_sign s = (case s of
       [] \<Rightarrow> (False, [])
     | c # cs \<Rightarrow> if c = CHR ''-'' then (True, cs) else if c = CHR ''+'' then (False, cs)
                else (False, s))"

definition py_int :: "string \<Rightarrow> pyerror + int" where
  "py_int s =
     (let (neg, v) = split_sign (strip_ascii (map fold_space s))
      in case ungroup v of
           None \<Rightarrow> Inl ValueError
         | Some ds \<Rightarrow>
             if ds \<noteq> [] \<and> list_all isdigit ds
             then Inr (if neg then - digits_value ds else digits_value ds)
             else Inl ValueError)"

definition lower :: "char \<Rightarrow> char" where
  "lower c = (let n = (of_char c :: nat) in if 65 \<le> n \<and> n \<le> 90 then char_of (n + 32) else c)"

definition pow10 :: "int \<Rightarrow> rat" where
  "pow10 e = (if 0 \<le> e then 10 ^ nat e else 1 / 10 ^ nat (- e))"

definition decimal_literal :: "string \<Rightarrow> pyerror + rat" where
  \<comment> \<open>digits, an optional point and digits (one digit at least), an optional exponent\<close>
  "decimal_literal w =
     (let ip = takeWhile isdigit w; r1 = dropWhile isdigit w;
          (fp, r2) = (case r1 of
                        [] \<Rightarrow> ([], [])
                      | c # cs \<Rightarrow> if c = CHR ''.''
                                 then (takeWhile isdigit cs, dropWhile isdigit cs)
                                 else ([], r1));
          mant = of_int (digits_value (ip @ fp)) * pow10 (- int (length fp))
      in if ip = [] \<and> fp = [] then Inl ValueError
         else (case r2 of
                 [] \<Rightarrow> Inr mant
               | c # cs \<Rightarrow>
                   if c = CHR ''e'' \<or> c = CHR ''E''
                   then (let (eneg, ed) = split_sign cs
                         in if ed \<noteq> [] \<and> list_all isdigit ed
                            then Inr (mant * pow10 (if eneg then - digits_value ed
                                                    else digits_value ed))
                            else Inl ValueError)
                   else Inl ValueError))"

definition py_float :: "string \<Rightarrow> pyerror + pyfloat" where
  "py_float s =
     (case ungroup (map fold_space s) of
        None \<Rightarrow> Inl ValueError
      | Some u \<Rightarrow>
          (let (neg, w) = split_sign (strip_ascii u); lw = map lower w
           in if lw = ''inf'' \<or> lw = ''infinity'' then Inr (if neg then NegInf else PosInf)
              else if lw = ''nan'' then Inr NaN
              else (case decimal_literal w of
                      Inl e \<Rightarrow> Inl e
                    | Inr q \<Rightarrow> Inr (round_to_double (if neg then - q else q)))))"

section \<open>DataFetcher\<close>

text \<open>
  One atom of a parsed structure. The fields are the keys of the dictionary the parser
  builds: \<open>serial\<close>, \<open>name\<close>, \<open>resName\<close>, \<open>chainID\<close>, \<open>resSeq\<close>, \<open>x\<close>, \<open>y\<close>, \<open>z\<close>.
\<close>

record atom =
  atom_serial :: int
  atom_name :: string
  atom_resName :: string
  atom_chainID :: char
  atom_resSeq :: int
  atom_x :: pyfloat
  atom_y :: pyfloat
  atom_z :: pyfloat

record pdb_json =
  header :: "string \<rightharpoonup> string"
  atoms :: "atom list"

definition atom_of_line :: "string \<Rightarrow> pyerror + atom" where
  \<comment> \<open>the dictionary display inside the \<open>try\<close>: the fields are evaluated in order and
      the first failure is the exception raised\<close>
  "atom_of_line line =
     (case py_int (slice 6 11 line) of Inl e \<Rightarrow> Inl e | Inr se \<Rightarrow>
     (case index line 21 of Inl e \<Rightarrow> Inl e | Inr ch \<Rightarrow>
     (case py_int (slice 22 26 line) of Inl e \<Rightarrow> Inl e | Inr rs \<Rightarrow>
     (case py_float (slice 30 38 line) of Inl e \<Rightarrow> Inl e | Inr vx \<Rightarrow>
     (case py_float (slice 38 46 line) of Inl e \<Rightarrow> Inl e | Inr vy \<Rightarrow>
     (case py_float (slice 46 54 line) of Inl e \<Rightarrow> Inl e | Inr vz \<Rightarrow>
      Inr \<lparr>atom_serial = se,
           atom_name = strip (slice 12 16 line),
           atom_resName = strip (slice 17 20 line),
           atom_chainID = ch,
           atom_resSeq = rs,
           atom_x = vx, atom_y = vy, atom_z = vz\<rparr>))))))"

definition parse_line :: "string \<Rightarrow> pdb_json \<Rightarrow> pyerror + pdb_json" where
  \<comment> \<open>the body of the loop; \<open>except Exception: pass\<close> turns every failure of the
      \<open>try\<close> block into the unchanged data\<close>
  "parse_line line data =
     (if startswith line ''HEADER''
      then Inr (data\<lparr>header := (header data)(''classification'' \<mapsto> strip (slice 10 50 line))\<rparr>)
      else if startswith line ''ATOM'' \<or> startswith line ''HETATM''
      then (case atom_of_line line of
              Inr a \<Rightarrow> Inr (data\<lparr>atoms := atoms data @ [a]\<rparr>)
            | Inl e \<Rightarrow> Inr data)
      else Inr data)"

fun parse_lines :: "string list \<Rightarrow> pdb_json \<Rightarrow> pyerror + pdb_json" where
  "parse_lines [] data = Inr data"
| "parse_lines (line # rest) data =
     (case parse_line line data of
        Inl e \<Rightarrow> Inl e
      | Inr data' \<Rightarrow> parse_lines rest data')"

definition parse_pdb_to_json :: "string \<Rightarrow> pyerror + pdb_json" where
  "parse_pdb_to_json pdb_text =
     parse_lines (splitlines pdb_text) \<lparr>header = Map.empty, atoms = []\<rparr>"

text \<open>
  The network is a parameter: \<open>requests.get\<close> maps a URL to a response or raises. A
  response is its status code and the lines \<open>iter_lines\<close> yields, each one the text it
  decodes to, or \<open>None\<close> when it is not valid UTF-8.
\<close>

record response =
  status_code :: int
  iter_lines :: "string option list"

type_synonym requests_get = "string \<Rightarrow> pyerror + response"

definition PDB_BASE :: string where
  "PDB_BASE = ''https://files.rcsb.org/download/''"

definition format_str :: "string option \<Rightarrow> string" where
  \<comment> \<open>\<open>f"{v}"\<close> for a value that is a \<open>str\<close> or \<open>None\<close>\<close>
  "format_str v = (case v of None \<Rightarrow> ''None'' | Some s \<Rightarrow> s)"

fun decode_lines :: "string option list \<Rightarrow> pyerror + string list" where
  "decode_lines [] = Inr []"
| "decode_lines (None # ls) = Inl UnicodeDecodeError"
| "decode_lines (Some l # ls) =
     (case decode_lines ls of Inl e \<Rightarrow> Inl e | Inr ds \<Rightarrow> Inr (l # ds))"

definition fetch_pdb :: "requests_get \<Rightarrow> string option \<Rightarrow> pyerror + string" where
  "fetch_pdb get pdb_id =
     (case get (PDB_BASE @ format_str pdb_id @ ''.pdb'') of
        Inl e \<Rightarrow> Inl e
      | Inr r \<Rightarrow>
          if status_code r = 200
          then (case decode_lines (iter_lines r) of
                  Inl e \<Rightarrow> Inl e
                | Inr ds \<Rightarrow> Inr (concat ds))
          else Inl (PDBFetchFailed (format_str pdb_id) (status_code r)))"

section \<open>Scorer\<close>

definition times_100 :: "pyfloat \<Rightarrow> pyerror + pyfloat" where
  \<comment> \<open>\<open>v * 100\<close>: the \<open>int\<close> operand is converted, then the floats are multiplied\<close>
  "times_100 v = (case float_of_int 100 of Inl e \<Rightarrow> Inl e | Inr c \<Rightarrow> Inr (float_mul v c))"

definition int_over :: "int \<Rightarrow> rat \<Rightarrow> pyerror + pyfloat" where
  \<comment> \<open>\<open>score / d\<close> for an \<open>int\<close> score and a float literal \<open>d\<close>\<close>
  "int_over score d =
     (case float_of_int score of Inl e \<Rightarrow> Inl e | Inr s \<Rightarrow> float_truediv s (Dbl d))"

definition compute_geps ::
  "int \<Rightarrow> int \<Rightarrow> int \<Rightarrow> int \<Rightarrow> int \<Rightarrow> int \<Rightarrow> int \<Rightarrow> int \<Rightarrow> pyerror + pyfloat" where
  "compute_geps modality material spatial functional dynamic pathology multi_physics efficiency =
     (let score = sum_list [modality, material, spatial, functional, dynamic, pathology,
                            multi_physics, efficiency]
      in case int_over score 24 of Inl e \<Rightarrow> Inl e | Inr v \<Rightarrow> times_100 v)"

definition compute_qgeps :: "int \<Rightarrow> int \<Rightarrow> int \<Rightarrow> int \<Rightarrow> pyerror + pyfloat" where
  "compute_qgeps coherence advantage shielding evidence =
     (let score = sum_list [coherence, advantage, shielding, evidence]
      in case int_over score 12 of Inl e \<Rightarrow> Inl e | Inr v \<Rightarrow> times_100 v)"

section \<open>ShopManual\<close>

text \<open>
  The values entries hold are those of JSON. A dictionary is the list of its items in
  insertion order; \<open>dict_get\<close> is \<open>dict.get\<close> (\<open>None\<close> for a missing key).
\<close>

datatype pyval =
    PNone
  | PBool bool
  | PInt int
  | PFloat pyfloat
  | PStr string
  | PList "pyval list"
  | PDict "(string \<times> pyval) list"

type_synonym entry = "(string \<times> pyval) list"

definition dict_get :: "entry \<Rightarrow> string \<Rightarrow> pyval" where
  "dict_get e k = (case map_of e k of None \<Rightarrow> PNone | Some v \<Rightarrow> v)"

record ShopManual =
  entries :: "entry list"

definition init_ShopManual :: ShopManual where
  "init_ShopManual = \<lparr>entries = []\<rparr>"

definition add_entry :: "entry \<Rightarrow> ShopManual \<Rightarrow> ShopManual" where
  "add_entry e sm = sm\<lparr>entries := entries sm @ [e]\<rparr>"

fun first_with_id :: "string \<Rightarrow> entry list \<Rightarrow> entry" where
  \<comment> \<open>the loop of \<open>get_entry_by_id\<close>, with its \<open>return {}\<close> after the last entry\<close>
  "first_with_id part_id [] = []"
| "first_with_id part_id (e # es) =
     (if dict_get e ''PartID'' = PStr part_id then e else first_with_id part_id es)"

definition get_entry_by_id :: "string \<Rightarrow> ShopManual \<Rightarrow> entry \<times> ShopManual" where
  \<comment> \<open>the result and the manual after the call\<close>
  "get_entry_by_id part_id sm = (first_with_id part_id (entries sm), sm)"

subsection \<open>\<open>json.dumps(obj, indent=2)\<close>\<close>

text \<open>
  The encoder of the standard library, with its defaults (\<open>ensure_ascii\<close>, \<open>allow_nan\<close>)
  and the separators that \<open>indent=2\<close> selects. \<open>float.__repr__\<close>, the shortest decimal
  text that reads back as the same value, is the parameter \<open>float_repr\<close>.
\<close>

definition hex_digit :: "nat \<Rightarrow> char" where
  "hex_digit n = ''0123456789abcdef'' ! (n mod 16)"

definition escape_char :: "char \<Rightarrow> string" where
  "escape_char c =
     (let n = (of_char c :: nat)
      in if c = CHR 0x22 then [CHR 0x5C, CHR 0x22]
         else if c = CHR 0x5C then [CHR 0x5C, CHR 0x5C]
         else if c = CHR 0x0A then [CHR 0x5C, CHR ''n'']
         else if c = CHR 0x0D then [CHR 0x5C, CHR ''r'']
         else if c = CHR 0x09 then [CHR 0x5C, CHR ''t'']
         else if c = CHR 0x0C then [CHR 0x5C, CHR ''f'']
         else if c = CHR 0x08 then [CHR 0x5C, CHR ''b'']
         else if n < 32 \<or> 126 < n
         then [CHR 0x5C, CHR ''u'', CHR ''0'', CHR ''0'', hex_digit (n div 16), hex_digit n]
         else [c])"

definition encode_str :: "string \<Rightarrow> string" where
  "encode_str s = [CHR 0x22] @ concat (map escape_char s) @ [CHR 0x22]"

fun nat_repr :: "nat \<Rightarrow> string" where
  "nat_repr n = (if n < 10 then [char_of (48 + n)]
                 else nat_repr (n div 10) @ [char_of (48 + n mod 10)])"

declare nat_repr.simps [simp del]

definition int_repr :: "int \<Rightarrow> string" where
  "int_repr i = (if i < 0 then CHR ''-'' # nat_repr (nat (- i)) else nat_repr (nat i))"

definition floatstr :: "(rat \<Rightarrow> string) \<Rightarrow> pyfloat \<Rightarrow> string" where
  "floatstr float_repr v = (case v of
       NaN \<Rightarrow> ''NaN''
     | PosInf \<Rightarrow> ''Infinity''
     | NegInf \<Rightarrow> ''-Infinity''
     | Dbl q \<Rightarrow> float_repr q)"

definition newline_indent :: "nat \<Rightarrow> string" where
  "newline_indent level = CHR 0x0A # replicate (2 * level) (CHR '' '')"

fun iterencode :: "(rat \<Rightarrow> string) \<Rightarrow> nat \<Rightarrow> pyval \<Rightarrow> string"
  and iterencode_list :: "(rat \<Rightarrow> string) \<Rightarrow> nat \<Rightarrow> pyval list \<Rightarrow> string"
  and iterencode_dict :: "(rat \<Rightarrow> string) \<Rightarrow> nat \<Rightarrow> (string \<times> pyval) list \<Rightarrow> string"
  where
  "iterencode fr level PNone = ''null''"
| "iterencode fr level (PBool b) = (if b then ''true'' else ''false'')"
| "iterencode fr level (PInt i) = int_repr i"
| "iterencode fr level (PFloat v) = floatstr fr v"
| "iterencode fr level (PStr s) = encode_str s"
| "iterencode fr level (PList vs) =
     (if vs = [] then ''[]''
      else ''['' @ newline_indent (level + 1) @ iterencode_list fr (level + 1) vs
           @ newline_indent level @ '']'')"
| "iterencode fr level (PDict kvs) =
     (if kvs = [] then ''{}''
      else ''{'' @ newline_indent (level + 1) @ iterencode_dict fr (level + 1) kvs
           @ newline_indent level @ ''}'')"
| "iterencode_list fr level [] = []"
| "iterencode_list fr level (v # vs) =
     iterencode fr level v
     @ (if vs = [] then [] else '','' @ newline_indent level @ iterencode_list fr level vs)"
| "iterencode_dict fr level [] = []"
| "iterencode_dict fr level (kv # kvs) =
     encode_str (fst kv) @ '': '' @ iterencode fr level (snd kv)
     @ (if kvs = [] then [] else '','' @ newline_indent level @ iterencode_dict fr level kvs)"

definition json_dumps :: "(rat \<Rightarrow> string) \<Rightarrow> pyval \<Rightarrow> string" where
  "json_dumps fr v = iterencode fr 0 v"

definition to_json :: "(rat \<Rightarrow> string) \<Rightarrow> ShopManual \<Rightarrow> string \<times> ShopManual" where
  "to_json fr sm = (json_dumps fr (PList (map PDict (entries sm))), sm)"

subsection \<open>\<open>json.loads(s)\<close>\<close>

text \<open>
  The decoder of the \<open>json\<close> module: \<open>scan_once\<close> dispatches on the next character,
  \<open>JSONArray\<close> and \<open>JSONObject\<close> read the items of a list and of a dict, \<open>scanstring\<close>
  reads a string body (strict: no control character), \<open>NUMBER_RE\<close> a number; a number
  with a fraction or an exponent goes to \<open>float\<close>, any other to \<open>int\<close>. The pairs of
  an object become a dict, a later pair replacing an earlier one with the same key.
  An escape \<open>\uXXXX\<close> is read when it denotes a code point below 256, the only ones a
  \<open>string\<close> holds. The nesting of the scanner is bounded by a fuel argument:
  \<open>json_loads\<close> starts with more fuel than the text has characters, and a text that would
  need more is undecodable here.

  \<open>load_json\<close> assigns what \<open>json.loads\<close> returns to \<open>self.entries\<close>. The attribute is
  declared \<open>List[Dict[str, Any]]\<close>, and so is the field of the record; a decoded value
  of another shape, which Python stores as it is, is returned as \<open>Untyped\<close>.
\<close>

definition is_json_ws :: "char \<Rightarrow> bool" where
  "is_json_ws c = (c = CHR '' '' \<or> c = CHR 0x09 \<or> c = CHR 0x0A \<or> c = CHR 0x0D)"

definition skip_ws :: "string \<Rightarrow> string" where
  "skip_ws s = dropWhile is_json_ws s"

definition hex_value :: "char \<Rightarrow> nat option" where
  "hex_value c =
     (let n = (of_char c :: nat)
      in if 48 \<le> n \<and> n \<le> 57 then Some (n - 48)
         else if 97 \<le> n \<and> n \<le> 102 then Some (n - 87)
         else if 65 \<le> n \<and> n \<le> 70 then Some (n - 55)
         else None)"

definition unescape :: "string \<Rightarrow> (char \<times> string) option" where
  \<comment> \<open>the text after a backslash: the character it denotes and the text after the escape\<close>
  "unescape s =
     (case s of
        [] \<Rightarrow> None
      | e # r \<Rightarrow>
          if e = CHR 0x22 \<or> e = CHR 0x5C \<or> e = CHR ''/'' then Some (e, r)
          else if e = CHR ''b'' then Some (CHR 0x08, r)
          else if e = CHR ''f'' then Some (CHR 0x0C, r)
          else if e = CHR ''n'' then Some (CHR 0x0A, r)
          else if e = CHR ''r'' then Some (CHR 0x0D, r)
          else if e = CHR ''t'' then Some (CHR 0x09, r)
          else if e = CHR ''u''
          then (case map hex_value (take 4 r) of
                  [Some a, Some b, Some c, Some d] \<Rightarrow>
                    if a = 0 \<and> b = 0 then Some (char_of (c * 16 + d), drop 4 r) else None
                | _ \<Rightarrow> None)
          else None)"

function scanstring :: "string \<Rightarrow> (string \<times> string) option" where
  "scanstring [] = None"
| "scanstring (c # cs) =
     (if c = CHR 0x22 then Some ([], cs)
      else if c = CHR 0x5C
      then (case unescape cs of
              None \<Rightarrow> None
            | Some (ch, r) \<Rightarrow>
                if length r < length cs
                then (case scanstring r of None \<Rightarrow> None | Some (t, rest) \<Rightarrow> Some (ch # t, rest))
                else None)
      else if (of_char c :: nat) < 32 then None
      else (case scanstring cs of None \<Rightarrow> None | Some (t, rest) \<Rightarrow> Some (c # t, rest)))"
  by pat_completeness auto
termination
  by (relation "measure length") auto

definition scan_exponent :: "string \<Rightarrow> string \<times> string" where
  \<comment> \<open>the group \<open>([eE][-+]?[0-9]+)?\<close>: its text and the text after it\<close>
  "scan_exponent s =
     (case s of
        [] \<Rightarrow> ([], s)
      | c # r \<Rightarrow>
          if c = CHR ''e'' \<or> c = CHR ''E''
          then (let (sg, r') = (case r of
                                  [] \<Rightarrow> ([], r)
                                | d # r'' \<Rightarrow> if d = CHR ''-'' \<or> d = CHR ''+'' then ([d], r'')
                                            else ([], r))
                in if takeWhile isdigit r' = [] then ([], s)
                   else (c # sg @ takeWhile isdigit r', dropWhile isdigit r'))
          else ([], s))"

definition scan_fraction :: "string \<Rightarrow> string \<times> string" where
  \<comment> \<open>the group \<open>(\.[0-9]+)?\<close>\<close>
  "scan_fraction s =
     (case s of
        [] \<Rightarrow> ([], s)
      | c # r \<Rightarrow>
          if c = CHR ''.'' \<and> takeWhile isdigit r \<noteq> []
          then (c # takeWhile isdigit r, dropWhile isdigit r)
          else ([], s))"

definition scan_integer :: "string \<Rightarrow> (string \<times> string) option" where
  \<comment> \<open>the group \<open>(-?(?:0|[1-9][0-9]*))\<close>\<close>
  "scan_integer s =
     (let (sg, r) = (case s of
                       [] \<Rightarrow> ([], s)
                     | c # r' \<Rightarrow> if c = CHR ''-'' then ([c], r') else ([], s))
      in case r of
           [] \<Rightarrow> None
         | d # r' \<Rightarrow>
             if d = CHR ''0'' then Some (sg @ [d], r')
             else if isdigit d then Some (sg @ takeWhile isdigit r, dropWhile isdigit r)
             else None)"

definition match_number :: "string \<Rightarrow> (string \<times> string \<times> string \<times> string) option" where
  \<comment> \<open>\<open>NUMBER_RE.match\<close>: the three groups and the text after the match\<close>
  "match_number s =
     (case scan_integer s of
        None \<Rightarrow> None
      | Some (i, r) \<Rightarrow>
          (let (f, r1) = scan_fraction r; (e, r2) = scan_exponent r1
           in Some (i, f, e, r2)))"

definition scan_number :: "string \<Rightarrow> (pyval \<times> string) option" where
  "scan_number s =
     (case match_number s of
        None \<Rightarrow> None
      | Some (i, f, e, r) \<Rightarrow>
          if f \<noteq> [] \<or> e \<noteq> []
          then (case py_float (i @ f @ e) of Inl err \<Rightarrow> None | Inr v \<Rightarrow> Some (PFloat v, r))
          else (case py_int i of Inl err \<Rightarrow> None | Inr v \<Rightarrow> Some (PInt v, r)))"

definition scan_constant :: "string \<Rightarrow> (pyval \<times> string) option" where
  "scan_constant s =
     (if take 3 s = ''NaN'' then Some (PFloat NaN, drop 3 s)
      else if take 8 s = ''Infinity'' then Some (PFloat PosInf, drop 8 s)
      else if take 9 s = ''-Infinity'' then Some (PFloat NegInf, drop 9 s)
      else None)"

fun dict_set :: "string \<Rightarrow> pyval \<Rightarrow> (string \<times> pyval) list \<Rightarrow> (string \<times> pyval) list" where
  \<comment> \<open>\<open>d[k] = v\<close>: a key keeps its place, a new key goes last\<close>
  "dict_set k v [] = [(k, v)]"
| "dict_set k v (kv # kvs) = (if fst kv = k then (k, v) # kvs else kv # dict_set k v kvs)"

definition dict_of_pairs :: "(string \<times> pyval) list \<Rightarrow> (string \<times> pyval) list" where
  \<comment> \<open>\<open>dict(pairs)\<close>\<close>
  "dict_of_pairs kvs = foldl (\<lambda>d kv. dict_set (fst kv) (snd kv) d) [] kvs"

fun scan_once :: "nat \<Rightarrow> string \<Rightarrow> (pyval \<times> string) option"
  and JSONArray :: "nat \<Rightarrow> string \<Rightarrow> (pyval list \<times> string) option"
  and JSONObject :: "nat \<Rightarrow> string \<Rightarrow> ((string \<times> pyval) list \<times> string) option"
  where
  "scan_once 0 s = None"
| "scan_once (Suc n) s =
     (case s of
        [] \<Rightarrow> None
      | c # cs \<Rightarrow>
          if c = CHR 0x22
          then (case scanstring cs of None \<Rightarrow> None | Some (t, r) \<Rightarrow> Some (PStr t, r))
          else if c = CHR ''{''
          then (case skip_ws cs of
                  [] \<Rightarrow> None
                | d # r \<Rightarrow>
                    if d = CHR ''}'' then Some (PDict [], r)
                    else (case JSONObject n (d # r) of
                            None \<Rightarrow> None
                          | Some (kvs, r') \<Rightarrow> Some (PDict (dict_of_pairs kvs), r')))
          else if c = CHR ''[''
          then (case skip_ws cs of
                  [] \<Rightarrow> None
                | d # r \<Rightarrow>
                    if d = CHR '']'' then Some (PList [], r)
                    else (case JSONArray n (d # r) of
                            None \<Rightarrow> None
                          | Some (vs, r') \<Rightarrow> Some (PList vs, r')))
          else if take 4 s = ''null'' then Some (PNone, drop 4 s)
          else if take 4 s = ''true'' then Some (PBool True, drop 4 s)
          else if take 5 s = ''false'' then Some (PBool False, drop 5 s)
          else (case scan_number s of
                  Some res \<Rightarrow> Some res
                | None \<Rightarrow> scan_constant s))"
| "JSONArray 0 s = None"
| "JSONArray (Suc n) s =
     (case scan_once n s of
        None \<Rightarrow> None
      | Some (v, r) \<Rightarrow>
          (case skip_ws r of
             [] \<Rightarrow> None
           | d # r' \<Rightarrow>
               if d = CHR '']'' then Some ([v], r')
               else if d = CHR '',''
               then (case JSONArray n (skip_ws r') of
                       None \<Rightarrow> None
                     | Some (vs, r'') \<Rightarrow> Some (v # vs, r''))
               else None))"
| "JSONObject 0 s = None"
| "JSONObject (Suc n) s =
     (case s of
        [] \<Rightarrow> None
      | q # cs \<Rightarrow>
          if q \<noteq> CHR 0x22 then None
          else (case scanstring cs of
                  None \<Rightarrow> None
                | Some (k, r) \<Rightarrow>
                    (case skip_ws r of
                       [] \<Rightarrow> None
                     | d # r1 \<Rightarrow>
                         if d \<noteq> CHR '':'' then None
                         else (case scan_once n (skip_ws r1) of
                                 None \<Rightarrow> None
                               | Some (v, r2) \<Rightarrow>
                                   (case skip_ws r2 of
                                      [] \<Rightarrow> None
                                    | d' # r3 \<Rightarrow>
                                        if d' = CHR ''}'' then Some ([(k, v)], r3)
                                        else if d' = CHR '',''
                                        then (case JSONObject n (skip_ws r3) of
                                                None \<Rightarrow> None
                                              | Some (kvs, r4) \<Rightarrow> Some ((k, v) # kvs, r4))
                                        else None)))))"

definition json_loads :: "string \<Rightarrow> pyerror + pyval" where
  "json_loads s =
     (case scan_once (Suc (length s)) (skip_ws s) of
        None \<Rightarrow> Inl JSONDecodeError
      | Some (v, r) \<Rightarrow> if skip_ws r = [] then Inr v else Inl JSONDecodeError)"

fun dict_items :: "pyval \<Rightarrow> entry option" where
  "dict_items (PDict kvs) = Some kvs"
| "dict_items v = None"

fun as_entries :: "pyval \<Rightarrow> entry list option" where
  "as_entries (PList vs) = those (map dict_items vs)"
| "as_entries v = None"

datatype load_outcome = Raised pyerror | Loaded ShopManual | Untyped pyval

definition load_json :: "string \<Rightarrow> ShopManual \<Rightarrow> load_outcome" where
  "load_json json_str sm =
     (case json_loads json_str of
        Inl err \<Rightarrow> Raised err
      | Inr v \<Rightarrow> (case as_entries v of
                   Some es \<Rightarrow> Loaded (sm\<lparr>entries := es\<rparr>)
                 | None \<Rightarrow> Untyped v))"

section \<open>AdaptiveAutoAuditor\<close>

text \<open>
  A target is a dictionary of strings, as \<open>generate_targets\<close> builds them. An audit
  returns its result or the exception raised, and the manual as the call leaves it.
\<close>

type_synonym target = "string \<rightharpoonup> string"

definition str_or_none :: "string option \<Rightarrow> pyval" where
  "str_or_none v = (case v of None \<Rightarrow> PNone | Some s \<Rightarrow> PStr s)"

definition get_default :: "target \<Rightarrow> string \<Rightarrow> string \<Rightarrow> pyval" where
  \<comment> \<open>\<open>target.get(k, d)\<close>\<close>
  "get_default t k d = (case t k of None \<Rightarrow> PStr d | Some s \<Rightarrow> PStr s)"

definition atom_dict :: "atom \<Rightarrow> pyval" where
  "atom_dict a = PDict
     [(''serial'', PInt (atom_serial a)),
      (''name'', PStr (atom_name a)),
      (''resName'', PStr (atom_resName a)),
      (''chainID'', PStr [atom_chainID a]),
      (''resSeq'', PInt (atom_resSeq a)),
      (''x'', PFloat (atom_x a)),
      (''y'', PFloat (atom_y a)),
      (''z'', PFloat (atom_z a))]"

definition audit_structure ::
  "requests_get \<Rightarrow> target \<Rightarrow> ShopManual \<Rightarrow> (pyerror + entry) \<times> ShopManual" where
  "audit_structure get t sm =
     (let pdb_id = t ''PDB''
      in (case fetch_pdb get pdb_id of Inl e \<Rightarrow> (Inl e, sm) | Inr pdb_text \<Rightarrow>
         (case parse_pdb_to_json pdb_text of Inl e \<Rightarrow> (Inl e, sm) | Inr pj \<Rightarrow>
         (case compute_geps 3 3 3 3 3 3 3 3 of Inl e \<Rightarrow> (Inl e, sm) | Inr geps \<Rightarrow>
         (case t ''PartID'' of None \<Rightarrow> (Inl (KeyError ''PartID''), sm) | Some part_id \<Rightarrow>
         (let e = [(''PartID'', PStr part_id),
                   (''BiologicalStructure'', str_or_none (t ''Name'')),
                   (''InorganicCore'', get_default t ''Inorganic'' ''None''),
                   (''PrimaryFunction'', get_default t ''PrimaryFunction'' ''Unknown''),
                   (''SecondaryFunction'', get_default t ''SecondaryFunction'' ''Unknown''),
                   (''GEPS_Score'', PFloat geps),
                   (''FailureMode_Engineering'', get_default t ''FailureModeEngineering'' []),
                   (''FailureMode_Biological'', get_default t ''FailureModeBiological'' []),
                   (''DataSources'', PStr (''PDB:'' @ format_str pdb_id)),
                   (''ValidationPath'', PStr ''Structural Analysis''),
                   (''Atoms'', PList (map atom_dict (atoms pj)))]
          in (Inr e, add_entry e sm)))))))"

fun run_batch ::
  "requests_get \<Rightarrow> target list \<Rightarrow> ShopManual \<Rightarrow> (pyerror + entry list) \<times> ShopManual" where
  "run_batch get [] sm = (Inr [], sm)"
| "run_batch get (t # ts) sm =
     (case audit_structure get t sm of
        (Inl e, sm') \<Rightarrow> (Inl e, sm')
      | (Inr r, sm') \<Rightarrow>
          (case run_batch get ts sm' of
             (Inl e, sm'') \<Rightarrow> (Inl e, sm'')
           | (Inr rs, sm'') \<Rightarrow> (Inr (r # rs), sm'')))"

section \<open>QuantumAuditor\<close>

record quantum_features =
  aromatic_rings :: int
  chiral_centers :: int
  metal_clusters :: int
  radical_pairs :: int
  decoherence :: string

definition identify_quantum_features :: "pdb_json \<Rightarrow> quantum_features" where
  "identify_quantum_features pj =
     \<lparr>aromatic_rings =
        int (length (filter (\<lambda>a. atom_resName a \<in> set [''PHE'', ''TRP'', ''TYR'']) (atoms pj))),
      chiral_centers =
        int (length (filter (\<lambda>a. atom_resName a \<in>
               set [''ALA'', ''VAL'', ''LEU'', ''ILE'', ''THR'', ''SER'']) (atoms pj))),
      metal_clusters =
        int (length (filter (\<lambda>a. atom_name a \<in> set [''FE'', ''MN'', ''CU'', ''MG'']) (atoms pj))),
      radical_pairs = (if ''FAD'' \<in> set (map atom_resName (atoms pj)) then 1 else 0),
      decoherence = ''Oxygen / Thermal Noise''\<rparr>"

definition audit_quantum_candidate ::
  "requests_get \<Rightarrow> string \<Rightarrow> string \<Rightarrow> string \<Rightarrow> ShopManual
     \<Rightarrow> (pyerror + entry) \<times> ShopManual" where
  "audit_quantum_candidate get pdb_id part_id struct_name sm =
     (case fetch_pdb get (Some pdb_id) of Inl e \<Rightarrow> (Inl e, sm) | Inr pdb_text \<Rightarrow>
     (case parse_pdb_to_json pdb_text of Inl e \<Rightarrow> (Inl e, sm) | Inr pj \<Rightarrow>
      (let qf = identify_quantum_features pj
       in case compute_qgeps (if aromatic_rings qf \<noteq> 0 then 3 else 1)
                             (if radical_pairs qf \<noteq> 0 then 3 else 1)
                             (if metal_clusters qf \<noteq> 0 then 3 else 1)
                             2 of
            Inl e \<Rightarrow> (Inl e, sm)
          | Inr qgeps \<Rightarrow>
              (let e = [(''PartID'', PStr part_id),
                        (''BiologicalStructure'', PStr struct_name),
                        (''QuantumPrimitive'', PStr ''Quantum Sensor / Qubit Candidate''),
                        (''Q-GEPS_Score'', PFloat qgeps),
                        (''DecoherenceSource'', PStr (decoherence qf)),
                        (''ProposedQuantumFunction'',
                           PStr ''Magnetoreception / Coherent Energy Transport''),
                        (''QuantumValidationPath'', PStr ''2D Spectroscopy / Pulsed EPR''),
                        (''DataSources'', PStr (''PDB:'' @ pdb_id))]
               in (Inr e, add_entry e sm)))))"

section \<open>Predicates of the specification\<close>

definition atom_tagged :: "string \<Rightarrow> bool" where
  "atom_tagged l = (startswith l ''ATOM'' \<or> startswith l ''HETATM'')"

definition line_atoms :: "string \<Rightarrow> atom list" where
  "line_atoms l = (if atom_tagged l
                   then (case atom_of_line l of Inr a \<Rightarrow> [a] | Inl e \<Rightarrow> [])
                   else [])"

definition atoms_of :: "string \<Rightarrow> atom list" where
  "atoms_of t = (case parse_pdb_to_json t of Inr d \<Rightarrow> atoms d | Inl e \<Rightarrow> [])"

definition no_break :: "string \<Rightarrow> bool" where
  "no_break s = (\<forall>c \<in> set s. \<not> is_linebreak c)"

definition documented_fields :: "string \<Rightarrow> atom option" where
  "documented_fields l =
     (case (py_int (slice 6 11 l), py_int (slice 22 26 l),
            py_float (slice 30 38 l), py_float (slice 38 46 l), py_float (slice 46 54 l)) of
        (Inr se, Inr rs, Inr vx, Inr vy, Inr vz) \<Rightarrow>
          if atom_tagged l \<and> 21 < length l
          then Some \<lparr>atom_serial = se,
                     atom_name = strip (slice 12 16 l),
                     atom_resName = strip (slice 17 20 l),
                     atom_chainID = l ! 21,
                     atom_resSeq = rs,
                     atom_x = vx, atom_y = vy, atom_z = vz\<rparr>
          else None
      | _ \<Rightarrow> None)"

definition delimited :: "string \<Rightarrow> bool" where
  \<comment> \<open>what follows a value in the encoder's output: nothing, a comma or a line break\<close>
  "delimited rest = (rest = [] \<or> hd rest = CHR '','' \<or> hd rest = CHR 0x0A)"

definition float_text_ok :: "(rat \<Rightarrow> string) \<Rightarrow> rat \<Rightarrow> bool" where
  \<comment> \<open>the contract of \<open>float.__repr__\<close> at \<open>q\<close>: a number with a fraction or an exponent,
      which \<open>float\<close> reads back as \<open>q\<close>\<close>
  "float_text_ok fr q =
     ((case match_number (fr q) of
         None \<Rightarrow> False
       | Some (i, f, e, r) \<Rightarrow> r = [] \<and> (f \<noteq> [] \<or> e \<noteq> []))
      \<and> py_float (fr q) = Inr (Dbl q))"

definition number_start :: "char \<Rightarrow> bool" where
  "number_start c = (c = CHR ''-'' \<or> isdigit c)"

definition int_text_ok :: "int \<Rightarrow> bool" where
  \<comment> \<open>within the interpreter's default limit on conversions between \<open>int\<close> and \<open>str\<close>\<close>
  "int_text_ok i = (length (nat_repr (nat \<bar>i\<bar>)) \<le> 4300)"

fun representable :: "(rat \<Rightarrow> string) \<Rightarrow> pyval \<Rightarrow> bool"
  and representable_list :: "(rat \<Rightarrow> string) \<Rightarrow> pyval list \<Rightarrow> bool"
  and representable_dict :: "(rat \<Rightarrow> string) \<Rightarrow> (string \<times> pyval) list \<Rightarrow> bool"
  where
  "representable fr PNone = True"
| "representable fr (PBool b) = True"
| "representable fr (PInt i) = int_text_ok i"
| "representable fr (PFloat v) =
     (case v of Dbl q \<Rightarrow> float_text_ok fr q | NaN \<Rightarrow> False | PosInf \<Rightarrow> True | NegInf \<Rightarrow> True)"
| "representable fr (PStr s) = True"
| "representable fr (PList vs) = representable_list fr vs"
| "representable fr (PDict kvs) = (distinct (map fst kvs) \<and> representable_dict fr kvs)"
| "representable_list fr [] = True"
| "representable_list fr (v # vs) = (representable fr v \<and> representable_list fr vs)"
| "representable_dict fr [] = True"
| "representable_dict fr (kv # kvs) = (representable fr (snd kv) \<and> representable_dict fr kvs)"

definition value_start :: "char \<Rightarrow> bool" where
  "value_start c = (\<not> is_json_ws c \<and> c \<noteq> CHR '']'' \<and> c \<noteq> CHR ''}'')"

section \<open>Sample data\<close>

definition three_atoms :: "atom list" where
  "three_atoms =
     [\<lparr>atom_serial = 1, atom_name = ''FE'', atom_resName = ''FAD'', atom_chainID = CHR ''A'',
       atom_resSeq = 1, atom_x = Dbl 0, atom_y = Dbl 0, atom_z = Dbl 0\<rparr>,
      \<lparr>atom_serial = 2, atom_name = ''CA'', atom_resName = ''PHE'', atom_chainID = CHR ''A'',
       atom_resSeq = 2, atom_x = Dbl 1, atom_y = Dbl 0, atom_z = Dbl 0\<rparr>,
      \<lparr>atom_serial = 3, atom_name = ''N'', atom_resName = ''ALA'', atom_chainID = CHR ''B'',
       atom_resSeq = 3, atom_x = Dbl 0, atom_y = Dbl 1, atom_z = Dbl 0\<rparr>]"

definition dup_manual :: ShopManual where
  "dup_manual = \<lparr>entries =
     [[(''PartID'', PStr ''A''), (''n'', PInt 0)],
      [(''PartID'', PStr ''B''), (''n'', PInt 1)],
      [(''PartID'', PStr ''B''), (''n'', PInt 2)]]\<rparr>"

definition fe_line :: string where
  "fe_line = ''ATOM      1 FE   MAG A  10       1.000   2.000   3.000''"

definition ca_line :: string where
  "ca_line = ''HETATM    2 CA   PHE B   7      -0.500  10.250   1e2   ''"

definition bad_serial_line :: string where
  "bad_serial_line = ''ATOM      X FE   MAG A  10       1.000   2.000   3.000''"

definition short_line :: string where
  "short_line = ''ATOM      3 FE   MAG A''"

definition header_line :: string where
  "header_line = ''HEADER    MAGNETIC PROTEIN''"

definition fe_atom :: atom where
  "fe_atom = \<lparr>atom_serial = 1, atom_name = ''FE'', atom_resName = ''MAG'',
     atom_chainID = CHR ''A'', atom_resSeq = 10, atom_x = Dbl 1, atom_y = Dbl 2, atom_z = Dbl 3\<rparr>"

definition ca_atom :: atom where
  "ca_atom = \<lparr>atom_serial = 2, atom_name = ''CA'', atom_resName = ''PHE'',
     atom_chainID = CHR ''B'', atom_resSeq = 7, atom_x = Dbl (- (1 / 2)), atom_y = Dbl (41 / 4),
     atom_z = Dbl 100\<rparr>"

definition c1_text :: string where
  "c1_text = fe_line @ [CHR 0x0A] @ fe_line @ [CHR 0x0D, CHR 0x0A] @ ca_line"

definition c2_text :: string where
  "c2_text = header_line @ [CHR 0x0A] @ fe_line @ [CHR 0x0A] @ bad_serial_line @ [CHR 0x0A]
             @ short_line @ [CHR 0x0A] @ ca_line @ [CHR 0x0A]"

definition fetch_fe :: requests_get where
  "fetch_fe url = Inr \<lparr>status_code = 200, iter_lines = [Some fe_line]\<rparr>"

definition fetch_two_lines :: requests_get where
  "fetch_two_lines url =
     Inr \<lparr>status_code = 200, iter_lines = [Some (header_line @ [CHR 0x0C]), Some fe_line]\<rparr>"

definition mag_target :: target where
  "mag_target = [''PartID'' \<mapsto> ''MAG-001'', ''Name'' \<mapsto> ''Magnetosome'', ''PDB'' \<mapsto> ''4DYF'']"

definition repr_whole :: "rat \<Rightarrow> string" where
  \<comment> \<open>\<open>float.__repr__\<close> on the whole numbers below \<open>10^16\<close>: the digits, then \<open>.0\<close>\<close>
  "repr_whole q = int_repr \<lfloor>q\<rfloor> @ ''.0''"

definition entry_a :: entry where
  "entry_a = [(''PartID'', PStr ''A''), (''n'', PInt 1)]"

definition entry_b :: entry where
  "entry_b = [(''PartID'', PStr ''B''), (''ok'', PBool True)]"

definition stored_manual :: ShopManual where
  "stored_manual = \<lparr>entries =
     [[(''PartID'', PStr ''MAG-001''), (''BiologicalStructure'', PNone),
       (''GEPS_Score'', PFloat (Dbl 100)),
       (''Atoms'', PList [PDict [(''serial'', PInt 1), (''name'', PStr ''FE''),
                                 (''x'', PFloat (Dbl 1))]])],
      [(''PartID'', PStr ''CRY-001''), (''Checked'', PBool True), (''Notes'', PList [])]]\<rparr>"

section \<open>Properties\<close>

subsection \<open>Feature extraction\<close>

text \<open>
  C6. Feature extraction counts the atoms whose residue name is PHE, TRP or TYR
  (aromatic rings), those whose residue name is ALA, VAL, LEU, ILE, THR or SER (chiral
  centers) and those whose atom name is FE, MN, CU or MG (metal clusters); the
  radical-pair flag is 1 exactly when some atom has residue name FAD, whatever the other
  atoms are, and 0 otherwise; on an empty atom list every count and the flag are 0. The
  function is total: it has no error result.
\<close>

theorem identify_quantum_features_counts:
  "aromatic_rings (identify_quantum_features pj) =
     int (length (filter (\<lambda>a. atom_resName a = ''PHE'' \<or> atom_resName a = ''TRP''
                              \<or> atom_resName a = ''TYR'') (atoms pj)))
   \<and> chiral_centers (identify_quantum_features pj) =
     int (length (filter (\<lambda>a. atom_resName a = ''ALA'' \<or> atom_resName a = ''VAL''
                              \<or> atom_resName a = ''LEU'' \<or> atom_resName a = ''ILE''
                              \<or> atom_resName a = ''THR'' \<or> atom_resName a = ''SER'') (atoms pj)))
   \<and> metal_clusters (identify_quantum_features pj) =
     int (length (filter (\<lambda>a. atom_name a = ''FE'' \<or> atom_name a = ''MN''
                              \<or> atom_name a = ''CU'' \<or> atom_name a = ''MG'') (atoms pj)))
   \<and> (radical_pairs (identify_quantum_features pj) = 1
        \<longleftrightarrow> (\<exists>a \<in> set (atoms pj). atom_resName a = ''FAD''))
   \<and> (radical_pairs (identify_quantum_features pj) = 0
        \<longleftrightarrow> \<not> (\<exists>a \<in> set (atoms pj). atom_resName a = ''FAD''))
   \<and> (atoms pj = [] \<longrightarrow>
        aromatic_rings (identify_quantum_features pj) = 0
        \<and> chiral_centers (identify_quantum_features pj) = 0
        \<and> metal_clusters (identify_quantum_features pj) = 0
        \<and> radical_pairs (identify_quantum_features pj) = 0)"
proof -
  have rad: "(''FAD'' \<in> set (map atom_resName (atoms pj)))
             = (\<exists>a \<in> set (atoms pj). atom_resName a = ''FAD'')"
    by (simp add: image_iff) metis
  show ?thesis
    unfolding identify_quantum_features_def rad
    by (simp cong: filter_cong)
qed

theorem identify_quantum_features_counts_witness:
  "aromatic_rings (identify_quantum_features \<lparr>header = Map.empty, atoms = three_atoms\<rparr>) = 1
   \<and> chiral_centers (identify_quantum_features \<lparr>header = Map.empty, atoms = three_atoms\<rparr>) = 1
   \<and> metal_clusters (identify_quantum_features \<lparr>header = Map.empty, atoms = three_atoms\<rparr>) = 1
   \<and> radical_pairs (identify_quantum_features \<lparr>header = Map.empty, atoms = three_atoms\<rparr>) = 1
   \<and> radical_pairs (identify_quantum_features \<lparr>header = Map.empty, atoms = []\<rparr>) = 0
   \<and> aromatic_rings (identify_quantum_features \<lparr>header = Map.empty, atoms = []\<rparr>) = 0"
  using identify_quantum_features_counts [of "\<lparr>header = Map.empty, atoms = three_atoms\<rparr>"]
        identify_quantum_features_counts [of "\<lparr>header = Map.empty, atoms = []\<rparr>"]
  by (simp add: three_atoms_def)

subsection \<open>Lookup by identifier\<close>

lemma first_with_id_miss:
  "\<forall>e \<in> set es. dict_get e ''PartID'' \<noteq> PStr pid \<Longrightarrow> first_with_id pid es = []"
  by (induction es) auto

lemma first_with_id_hit:
  "\<forall>e' \<in> set pre. dict_get e' ''PartID'' \<noteq> PStr pid \<Longrightarrow> dict_get e ''PartID'' = PStr pid
   \<Longrightarrow> first_with_id pid (pre @ e # post) = e"
  by (induction pre) auto

text \<open>
  C9. \<open>get_entry_by_id\<close> scans the entries in order and returns the first one whose
  \<open>PartID\<close> equals the requested identifier, also when later entries carry the same
  identifier; when no entry matches it returns the empty record and raises nothing; the
  manual is the same after the call in both cases.
\<close>

theorem get_entry_by_id_first_match:
  "snd (get_entry_by_id pid sm) = sm
   \<and> ((\<forall>e \<in> set (entries sm). dict_get e ''PartID'' \<noteq> PStr pid)
        \<longrightarrow> fst (get_entry_by_id pid sm) = [])
   \<and> (\<forall>pre e post.
         entries sm = pre @ e # post
         \<and> (\<forall>e' \<in> set pre. dict_get e' ''PartID'' \<noteq> PStr pid)
         \<and> dict_get e ''PartID'' = PStr pid
         \<longrightarrow> fst (get_entry_by_id pid sm) = e)"
  by (auto simp: get_entry_by_id_def first_with_id_miss first_with_id_hit)

theorem get_entry_by_id_first_match_witness:
  "get_entry_by_id ''B'' dup_manual = ([(''PartID'', PStr ''B''), (''n'', PInt 1)], dup_manual)
   \<and> get_entry_by_id ''Z'' dup_manual = ([], dup_manual)"
proof -
  have split: "entries dup_manual =
      [[(''PartID'', PStr ''A''), (''n'', PInt 0)]]
      @ [(''PartID'', PStr ''B''), (''n'', PInt 1)] # [[(''PartID'', PStr ''B''), (''n'', PInt 2)]]"
    by (simp add: dup_manual_def)
  have pre: "\<forall>e' \<in> set [[(''PartID'', PStr ''A''), (''n'', PInt 0)]].
      dict_get e' ''PartID'' \<noteq> PStr ''B''"
    by (simp add: dict_get_def)
  have hit: "dict_get [(''PartID'', PStr ''B''), (''n'', PInt 1)] ''PartID'' = PStr ''B''"
    by (simp add: dict_get_def)
  have miss: "\<forall>e \<in> set (entries dup_manual). dict_get e ''PartID'' \<noteq> PStr ''Z''"
    by (simp add: dup_manual_def dict_get_def)
  from get_entry_by_id_first_match [of "''B''" dup_manual] split pre hit
  have b: "fst (get_entry_by_id ''B'' dup_manual) = [(''PartID'', PStr ''B''), (''n'', PInt 1)]"
    by blast
  from get_entry_by_id_first_match [of "''Z''" dup_manual] miss
  have z: "fst (get_entry_by_id ''Z'' dup_manual) = []"
    by blast
  from get_entry_by_id_first_match [of "''B''" dup_manual]
       get_entry_by_id_first_match [of "''Z''" dup_manual] b z
  show ?thesis by (simp add: prod_eq_iff)
qed

lemma atom_tagged_not_header: "atom_tagged l \<Longrightarrow> \<not> startswith l ''HEADER''"
  by (cases l; cases "tl l"; cases "tl (tl l)")
     (auto simp: atom_tagged_def startswith_def)

lemma parse_line_atoms:
  "\<exists>d'. parse_line l d = Inr d' \<and> atoms d' = atoms d @ line_atoms l"
  using atom_tagged_not_header [of l]
  by (auto simp: parse_line_def line_atoms_def atom_tagged_def split: sum.splits)

lemma parse_lines_atoms:
  "\<exists>d'. parse_lines ls d = Inr d' \<and> atoms d' = atoms d @ concat (map line_atoms ls)"
proof (induction ls arbitrary: d)
  case Nil
  show ?case by simp
next
  case (Cons l ls)
  obtain d1 where d1: "parse_line l d = Inr d1" "atoms d1 = atoms d @ line_atoms l"
    using parse_line_atoms by blast
  obtain d2 where d2: "parse_lines ls d1 = Inr d2"
      "atoms d2 = atoms d1 @ concat (map line_atoms ls)"
    using Cons.IH by blast
  show ?case using d1 d2 by simp
qed

lemma parse_pdb_to_json_atoms:
  "\<exists>d. parse_pdb_to_json t = Inr d \<and> atoms d = concat (map line_atoms (splitlines t))"
  using parse_lines_atoms [of "splitlines t" "\<lparr>header = Map.empty, atoms = []\<rparr>"]
  by (simp add: parse_pdb_to_json_def)

lemma no_break_simps:
  "no_break []" "no_break (c # cs) = (\<not> is_linebreak c \<and> no_break cs)"
  "no_break (rev cs) = no_break cs" "no_break (cs @ ds) = (no_break cs \<and> no_break ds)"
  by (auto simp: no_break_def)

lemma splitlines_from_no_break:
  "no_break cur \<Longrightarrow> l \<in> set (splitlines_from cur s) \<Longrightarrow> no_break l"
proof (induction cur s rule: splitlines_from.induct)
  case (1 cur)
  then show ?case by (simp add: no_break_simps split: if_splits)
next
  case (2 cur c)
  then show ?case by (simp add: no_break_simps split: if_splits)
next
  case (3 cur c d cs)
  show ?case
  proof (cases "c = CHR 0x0D \<and> d = CHR 0x0A")
    case True
    with 3 show ?thesis by (auto simp: no_break_simps)
  next
    case crlf: False
    show ?thesis
    proof (cases "is_linebreak c")
      case True
      with crlf 3 show ?thesis by (auto simp: no_break_simps)
    next
      case False
      with crlf 3 show ?thesis by (auto simp: no_break_simps)
    qed
  qed
qed

lemma splitlines_from_single:
  "no_break s \<Longrightarrow> splitlines_from cur s = (if cur = [] \<and> s = [] then [] else [rev cur @ s])"
proof (induction cur s rule: splitlines_from.induct)
  case (1 cur)
  show ?case by simp
next
  case (2 cur c)
  then show ?case by (simp add: no_break_simps)
next
  case (3 cur c d cs)
  then have nb: "\<not> is_linebreak c" "no_break (d # cs)" by (simp_all add: no_break_simps)
  have "is_linebreak (CHR 0x0D)" by (simp add: is_linebreak_def)
  then have ncr: "c \<noteq> CHR 0x0D" using nb(1) by auto
  have "splitlines_from cur (c # d # cs) = splitlines_from (c # cur) (d # cs)"
    using nb(1) ncr by simp
  also have "\<dots> = [rev (c # cur) @ d # cs]"
    using 3(3) [OF _ nb(1) nb(2)] ncr by simp
  finally show ?case by simp
qed

lemma splitlines_line:
  assumes "l \<in> set (splitlines t)"
  shows "splitlines l = (if l = [] then [] else [l])"
proof -
  have "no_break l"
    using assms splitlines_from_no_break [of "[]" l t] by (simp add: splitlines_def no_break_simps)
  then show ?thesis
    using splitlines_from_single [of l "[]"] by (simp add: splitlines_def)
qed

lemma line_atoms_Nil: "line_atoms [] = []"
  by (simp add: line_atoms_def atom_tagged_def startswith_def)

lemma atoms_of_line:
  assumes "l \<in> set (splitlines t)"
  shows "atoms_of l = line_atoms l"
proof -
  obtain d where "parse_pdb_to_json l = Inr d" "atoms d = concat (map line_atoms (splitlines l))"
    using parse_pdb_to_json_atoms by blast
  then show ?thesis
    using splitlines_line [OF assms] by (simp add: atoms_of_def line_atoms_Nil)
qed

lemma atom_of_line_ok:
  assumes "21 < length l"
    and "py_int (slice 6 11 l) = Inr se" and "py_int (slice 22 26 l) = Inr rs"
    and "py_float (slice 30 38 l) = Inr vx" and "py_float (slice 38 46 l) = Inr vy"
    and "py_float (slice 46 54 l) = Inr vz"
  shows "atom_of_line l = Inr \<lparr>atom_serial = se, atom_name = strip (slice 12 16 l),
           atom_resName = strip (slice 17 20 l), atom_chainID = l ! 21, atom_resSeq = rs,
           atom_x = vx, atom_y = vy, atom_z = vz\<rparr>"
  using assms by (simp add: atom_of_line_def index_def)

lemma py_float_Nil: "py_float [] = Inl ValueError"
  by (simp add: py_float_def ungroup_def strip_ascii_def split_sign_def decimal_literal_def)

lemma atom_of_line_short:
  assumes "length l \<le> 46"
  shows "\<exists>e. atom_of_line l = Inl e"
proof -
  have "slice 46 54 l = []" using assms by (simp add: slice_def)
  then have "py_float (slice 46 54 l) = Inl ValueError" by (simp add: py_float_Nil)
  then show ?thesis
    unfolding atom_of_line_def by (simp split: sum.split)
qed

subsection \<open>Parsing\<close>

lemma line_atoms_documented: "line_atoms l = (case documented_fields l of None \<Rightarrow> [] | Some a \<Rightarrow> [a])"
  by (simp add: line_atoms_def documented_fields_def atom_of_line_def index_def
           split: sum.split)

lemma concat_line_atoms: "concat (map line_atoms ls) = List.map_filter documented_fields ls"
  by (induction ls) (simp_all add: line_atoms_documented List.map_filter_simps split: option.split)

text \<open>
  C1. For every input text, \<open>parse_pdb_to_json\<close> returns a structure whose atoms are
  the records of the well-formed atom lines, in the order of the lines and one record
  for each such line (equal lines give equal records, none is dropped). A line is
  well-formed when it starts with \<open>ATOM\<close> or \<open>HETATM\<close>, reaches column 21 and has
  numeric serial, residue-sequence and coordinate fields; its record
  (\<open>documented_fields\<close>) has the serial \<open>int(line[6:11])\<close>, the name and the residue name
  \<open>line[12:16]\<close> and \<open>line[17:20]\<close> stripped, the chain id \<open>line[21]\<close> as it stands, the
  residue sequence number \<open>int(line[22:26])\<close> and the coordinates \<open>float\<close> of
  \<open>line[30:38]\<close>, \<open>line[38:46]\<close>, \<open>line[46:54]\<close>.
\<close>

theorem parse_extracts_documented_fields:
  "\<exists>d. parse_pdb_to_json text = Inr d
       \<and> atoms d = List.map_filter documented_fields (splitlines text)
       \<and> ((\<forall>l \<in> set (splitlines text). documented_fields l \<noteq> None)
            \<longrightarrow> atoms d = map (\<lambda>l. the (documented_fields l)) (splitlines text))"
proof -
  obtain d where d: "parse_pdb_to_json text = Inr d"
      "atoms d = concat (map line_atoms (splitlines text))"
    using parse_pdb_to_json_atoms by blast
  have all: "(\<forall>l \<in> set ls. documented_fields l \<noteq> None)
      \<Longrightarrow> List.map_filter documented_fields ls = map (\<lambda>l. the (documented_fields l)) ls" for ls
    by (induction ls) (auto simp: List.map_filter_simps)
  show ?thesis using d all by (auto simp: concat_line_atoms)
qed

lemma fe_line_slices:
  "slice 6 11 fe_line = ''    1''" "slice 22 26 fe_line = ''  10''"
  "slice 30 38 fe_line = ''   1.000''" "slice 38 46 fe_line = ''   2.000''"
  "slice 46 54 fe_line = ''   3.000''" "slice 12 16 fe_line = ''FE  ''"
  "slice 17 20 fe_line = ''MAG''"
  by (simp_all add: fe_line_def slice_def)

lemma fe_vals:
  "py_int ''    1'' = Inr 1" "py_int ''  10'' = Inr 10"
  by (simp_all add: py_int_def split_sign_def strip_ascii_def fold_space_def ascii_isspace_def ungroup_def isdigit_def digits_value_def)

lemma fe_floats:
  "py_float ''   1.000'' = Inr (Dbl 1)" "py_float ''   2.000'' = Inr (Dbl 2)" "py_float ''   3.000'' = Inr (Dbl 3)"
  by code_simp+

lemma documented_fields_fe: "documented_fields fe_line = Some fe_atom"
  unfolding documented_fields_def fe_line_slices fe_vals fe_floats
  by (simp add: fe_line_def fe_atom_def atom_tagged_def startswith_def strip_def isspace_def)

lemma splitlines_c1_text: "splitlines c1_text = [fe_line, fe_line, ca_line]"
  by (simp add: c1_text_def splitlines_def fe_line_def ca_line_def is_linebreak_def)

lemma splitlines_c2_text:
  "splitlines c2_text = [header_line, fe_line] @ bad_serial_line # [short_line, ca_line]"
  by (simp add: c2_text_def splitlines_def fe_line_def ca_line_def header_line_def
        bad_serial_line_def short_line_def is_linebreak_def)

lemma ca_line_slices:
  "slice 6 11 ca_line = ''    2''" "slice 22 26 ca_line = ''   7''"
  "slice 30 38 ca_line = ''  -0.500''" "slice 38 46 ca_line = ''  10.250''"
  "slice 46 54 ca_line = ''   1e2  ''" "slice 12 16 ca_line = ''CA  ''"
  "slice 17 20 ca_line = ''PHE''"
  by (simp_all add: ca_line_def slice_def)

lemma ca_ints:
  "py_int ''    2'' = Inr 2" "py_int ''   7'' = Inr 7"
  by (simp_all add: py_int_def split_sign_def strip_ascii_def fold_space_def ascii_isspace_def
        ungroup_def isdigit_def digits_value_def)

lemma ca_float_x: "py_float ''  -0.500'' = Inr (Dbl (- (1 / 2)))"
  by code_simp

lemma ca_float_y: "py_float ''  10.250'' = Inr (Dbl (41 / 4))"
  by code_simp

lemma ca_float_z: "py_float ''   1e2  '' = Inr (Dbl 100)"
  by code_simp

lemma documented_fields_ca: "documented_fields ca_line = Some ca_atom"
  unfolding documented_fields_def ca_line_slices ca_ints ca_float_x ca_float_y ca_float_z
  by (simp add: ca_line_def ca_atom_def atom_tagged_def startswith_def strip_def isspace_def)

theorem parse_extracts_documented_fields_witness:
  "\<exists>d. parse_pdb_to_json c1_text = Inr d \<and> atoms d = [fe_atom, fe_atom, ca_atom]"
proof -
  have "\<forall>l \<in> set (splitlines c1_text). documented_fields l \<noteq> None"
    by (simp add: splitlines_c1_text documented_fields_fe documented_fields_ca)
  with parse_extracts_documented_fields [of c1_text]
  show ?thesis
    by (auto simp: splitlines_c1_text documented_fields_fe documented_fields_ca)
qed

text \<open>
  C2. \<open>parse_pdb_to_json\<close> returns a structure for every input text: it never raises.
  Each line gives the records it gives as a text of its own; an atom-tagged line whose
  extraction fails gives none, and the atoms of the whole text are those of the lines
  before it followed by those of the lines after it. The extraction fails when one of
  the five numeric fields does not convert, and on every line of fewer than 47
  characters.
\<close>

theorem parse_never_raises_and_isolates:
  "(\<exists>d. parse_pdb_to_json text = Inr d)
   \<and> atoms_of text = concat (map atoms_of (splitlines text))
   \<and> (\<forall>l \<in> set (splitlines text).
         atom_tagged l \<and> (\<exists>e. atom_of_line l = Inl e) \<longrightarrow> atoms_of l = [])
   \<and> (\<forall>ls1 l ls2.
         splitlines text = ls1 @ l # ls2 \<and> atom_tagged l \<and> (\<exists>e. atom_of_line l = Inl e)
         \<longrightarrow> atoms_of text = concat (map atoms_of ls1) @ concat (map atoms_of ls2))
   \<and> (\<forall>l. length l \<le> 46 \<longrightarrow> (\<exists>e. atom_of_line l = Inl e))
   \<and> (\<forall>l. (\<exists>e. py_int (slice 6 11 l) = Inl e) \<or> (\<exists>e. py_int (slice 22 26 l) = Inl e)
          \<or> (\<exists>e. py_float (slice 30 38 l) = Inl e) \<or> (\<exists>e. py_float (slice 38 46 l) = Inl e)
          \<or> (\<exists>e. py_float (slice 46 54 l) = Inl e)
          \<longrightarrow> (\<exists>e. atom_of_line l = Inl e))"
proof -
  obtain d where d: "parse_pdb_to_json text = Inr d"
      "atoms d = concat (map line_atoms (splitlines text))"
    using parse_pdb_to_json_atoms by blast
  have lines: "map atoms_of (splitlines text) = map line_atoms (splitlines text)"
    by (simp add: atoms_of_line)
  have "atoms_of text = atoms d"
    using d(1) by (simp add: atoms_of_def)
  then have whole: "atoms_of text = concat (map atoms_of (splitlines text))"
    unfolding lines using d(2) by simp
  have drop: "atoms_of l = []"
    if "l \<in> set (splitlines text)" "atom_tagged l" "atom_of_line l = Inl e" for l e
    using that by (simp add: atoms_of_line line_atoms_def)
  have rest: "atoms_of text = concat (map atoms_of ls1) @ concat (map atoms_of ls2)"
    if "splitlines text = ls1 @ l # ls2" "atom_tagged l" "atom_of_line l = Inl e" for ls1 l ls2 e
  proof -
    have "l \<in> set (splitlines text)" using that(1) by simp
    then have "atoms_of l = []" using drop that by blast
    then show ?thesis using whole that(1) by simp
  qed
  have fails: "\<exists>e. atom_of_line l = Inl e"
    if "(\<exists>e. py_int (slice 6 11 l) = Inl e) \<or> (\<exists>e. py_int (slice 22 26 l) = Inl e)
          \<or> (\<exists>e. py_float (slice 30 38 l) = Inl e) \<or> (\<exists>e. py_float (slice 38 46 l) = Inl e)
          \<or> (\<exists>e. py_float (slice 46 54 l) = Inl e)" for l
    using that unfolding atom_of_line_def by (auto split: sum.split)
  show ?thesis
    using d(1) whole drop rest atom_of_line_short fails by blast
qed

lemma atom_of_bad_serial_line: "atom_of_line bad_serial_line = Inl ValueError"
proof -
  have "slice 6 11 bad_serial_line = ''    X''"
    by (simp add: bad_serial_line_def slice_def)
  moreover have "py_int ''    X'' = Inl ValueError"
    by (simp add: py_int_def split_sign_def strip_ascii_def fold_space_def ascii_isspace_def
          ungroup_def isdigit_def)
  ultimately show ?thesis by (simp add: atom_of_line_def)
qed

lemma simple_line_atoms:
  "line_atoms header_line = []" "line_atoms fe_line = [fe_atom]" "line_atoms ca_line = [ca_atom]"
  by (simp_all add: line_atoms_documented documented_fields_fe documented_fields_ca)
     (simp add: documented_fields_def atom_tagged_def startswith_def header_line_def
           split: sum.split)

theorem parse_never_raises_and_isolates_witness:
  "(\<exists>d. parse_pdb_to_json c2_text = Inr d) \<and> atoms_of c2_text = [fe_atom, ca_atom]
   \<and> atom_of_line bad_serial_line = Inl ValueError
   \<and> (\<exists>e. atom_of_line short_line = Inl e)"
proof -
  have tagged: "atom_tagged bad_serial_line"
    by (simp add: atom_tagged_def startswith_def bad_serial_line_def)
  have short: "length short_line \<le> 46" by (simp add: short_line_def)
  have tagged_short: "atom_tagged short_line"
    by (simp add: atom_tagged_def startswith_def short_line_def)
  have mem: "header_line \<in> set (splitlines c2_text)" "fe_line \<in> set (splitlines c2_text)"
    "short_line \<in> set (splitlines c2_text)" "ca_line \<in> set (splitlines c2_text)"
    by (simp_all add: splitlines_c2_text)
  note inst = parse_never_raises_and_isolates [of c2_text]
  from inst short have short_fails: "\<exists>e. atom_of_line short_line = Inl e" by blast
  with inst mem(3) tagged_short have short_none: "atoms_of short_line = []" by blast
  from inst splitlines_c2_text tagged atom_of_bad_serial_line
  have "atoms_of c2_text = concat (map atoms_of [header_line, fe_line])
                           @ concat (map atoms_of [short_line, ca_line])"
    by blast
  then have "atoms_of c2_text = [fe_atom, ca_atom]"
    using short_none mem by (simp add: atoms_of_line simple_line_atoms)
  with inst short_fails atom_of_bad_serial_line show ?thesis by blast
qed

subsection \<open>Audits and scores\<close>

lemma compute_qgeps_score:
  "compute_qgeps a b c d =
     (case int_over (a + b + c + d) 12 of Inl e \<Rightarrow> Inl e | Inr v \<Rightarrow> times_100 v)"
  by (simp add: compute_qgeps_def add.assoc)

lemma compute_geps_score:
  "compute_geps a b c d e f g h =
     (case int_over (a + b + c + d + e + f + g + h) 24 of Inl e \<Rightarrow> Inl e | Inr v \<Rightarrow> times_100 v)"
  by (simp add: compute_geps_def add.assoc)

lemma compute_qgeps_sum:
  "a + b + c + d = a' + b' + c' + d' \<Longrightarrow> compute_qgeps a b c d = compute_qgeps a' b' c' d'"
  by (simp add: compute_qgeps_score)

lemma qgeps_5: "compute_qgeps 1 1 1 2 = Inr (Dbl (2932031007402667 / 70368744177664))"
  by code_simp

lemma qgeps_7: "compute_qgeps 1 1 3 2 = Inr (Dbl (8209686820727467 / 140737488355328))"
  by code_simp

lemma qgeps_9: "compute_qgeps 1 3 3 2 = Inr (Dbl 75)"
  by code_simp

lemma qgeps_11: "compute_qgeps 3 3 3 2 = Inr (Dbl (3225234108142933 / 35184372088832))"
  by code_simp

lemma geps_24: "compute_geps 3 3 3 3 3 3 3 3 = Inr (Dbl 100)"
  by code_simp

lemma qgeps_cases:
  assumes "a \<in> {1, 3}" "b \<in> {1, 3}" "c \<in> {1, 3}"
  shows "compute_qgeps a b c 2 \<in>
     {Inr (Dbl (2932031007402667 / 70368744177664)),
      Inr (Dbl (8209686820727467 / 140737488355328)),
      Inr (Dbl 75),
      Inr (Dbl (3225234108142933 / 35184372088832))}"
proof -
  have s: "a + b + c + 2 \<in> {5, 7, 9, 11}" using assms by auto
  have "compute_qgeps a b c 2 = compute_qgeps 1 1 1 2 \<or> compute_qgeps a b c 2 = compute_qgeps 1 1 3 2
      \<or> compute_qgeps a b c 2 = compute_qgeps 1 3 3 2 \<or> compute_qgeps a b c 2 = compute_qgeps 3 3 3 2"
    using s compute_qgeps_sum [of a b c 2 1 1 1 2] compute_qgeps_sum [of a b c 2 1 1 3 2]
      compute_qgeps_sum [of a b c 2 1 3 3 2] compute_qgeps_sum [of a b c 2 3 3 3 2]
    by auto
  then show ?thesis by (auto simp: qgeps_5 qgeps_7 qgeps_9 qgeps_11)
qed

lemma audit_quantum_candidate_result:
  assumes "fetch_pdb get (Some pdb_id) = Inr text" "parse_pdb_to_json text = Inr pj"
    and "compute_qgeps (if aromatic_rings (identify_quantum_features pj) \<noteq> 0 then 3 else 1)
           (if radical_pairs (identify_quantum_features pj) \<noteq> 0 then 3 else 1)
           (if metal_clusters (identify_quantum_features pj) \<noteq> 0 then 3 else 1) 2 = Inr v"
  shows "\<exists>e. audit_quantum_candidate get pdb_id part_id nm sm = (Inr e, add_entry e sm)
     \<and> dict_get e ''Q-GEPS_Score'' = PFloat v \<and> dict_get e ''PartID'' = PStr part_id
     \<and> dict_get e ''DataSources'' = PStr (''PDB:'' @ pdb_id)"
  using assms by (simp add: audit_quantum_candidate_def Let_def dict_get_def)

lemma audit_quantum_candidate_Inr:
  assumes "audit_quantum_candidate get pdb_id part_id nm sm = (Inr e, sm')"
  shows "\<exists>text pj v. fetch_pdb get (Some pdb_id) = Inr text \<and> parse_pdb_to_json text = Inr pj
     \<and> compute_qgeps (if aromatic_rings (identify_quantum_features pj) \<noteq> 0 then 3 else 1)
           (if radical_pairs (identify_quantum_features pj) \<noteq> 0 then 3 else 1)
           (if metal_clusters (identify_quantum_features pj) \<noteq> 0 then 3 else 1) 2 = Inr v
     \<and> dict_get e ''Q-GEPS_Score'' = PFloat v \<and> sm' = add_entry e sm"
  using assms unfolding audit_quantum_candidate_def Let_def
  by (auto simp: dict_get_def split: sum.splits)

lemma fetch_fe_text: "fetch_pdb fetch_fe (Some pdb_id) = Inr fe_line"
  by (simp add: fetch_pdb_def fetch_fe_def)

lemma fetch_two_lines_text:
  "fetch_pdb fetch_two_lines (Some pdb_id) = Inr (header_line @ [CHR 0x0C] @ fe_line)"
  by (simp add: fetch_pdb_def fetch_two_lines_def)


lemma splitlines_fe_line: "splitlines fe_line = [fe_line]"
  by (simp add: splitlines_def fe_line_def is_linebreak_def)

lemma parse_fe_line: "\<exists>pj. parse_pdb_to_json fe_line = Inr pj \<and> atoms pj = [fe_atom]"
  using parse_pdb_to_json_atoms [of fe_line]
  by (simp add: splitlines_fe_line simple_line_atoms)

lemma qgeps_total:
  "\<exists>v. compute_qgeps (if p then 3 else 1) (if q then 3 else 1) (if r then 3 else 1) 2 = Inr v"
  using qgeps_cases [of "if p then 3 else 1" "if q then 3 else 1" "if r then 3 else 1"]
  by auto

text \<open>
  C4. When the fetch and the parse succeed, the quantum audit returns and appends an
  entry whose \<open>Q-GEPS_Score\<close> is \<open>compute_qgeps\<close> of: coherence 3 if the aromatic-ring
  count is nonzero else 1, advantage 3 if the radical-pair flag is nonzero else 1,
  shielding 3 if the metal-cluster count is nonzero else 1, and evidence 2. On a
  structure with an atom named FE, no FAD residue and no aromatic residue the inputs are
  1, 1, 3, 2 and the score is the binary64 value of \<open>(7 / 12.0) * 100\<close>, which is
  58.333333333333336 (within \<open>10^-13\<close> of \<open>(1+1+3+2)/12*100\<close>).
\<close>

theorem quantum_audit_score_inputs:
  assumes "fetch_pdb get (Some pdb_id) = Inr text" and "parse_pdb_to_json text = Inr pj"
  shows "\<exists>e v. audit_quantum_candidate get pdb_id part_id nm sm = (Inr e, add_entry e sm)
     \<and> dict_get e ''Q-GEPS_Score'' = PFloat v
     \<and> compute_qgeps (if aromatic_rings (identify_quantum_features pj) \<noteq> 0 then 3 else 1)
          (if radical_pairs (identify_quantum_features pj) \<noteq> 0 then 3 else 1)
          (if metal_clusters (identify_quantum_features pj) \<noteq> 0 then 3 else 1) 2 = Inr v
     \<and> ((\<exists>a \<in> set (atoms pj). atom_name a = ''FE'')
          \<and> (\<forall>a \<in> set (atoms pj). atom_resName a \<notin> {''FAD'', ''PHE'', ''TRP'', ''TYR''})
          \<longrightarrow> compute_qgeps 1 1 3 2 = Inr v
              \<and> v = Dbl (8209686820727467 / 140737488355328)
              \<and> \<bar>8209686820727467 / 140737488355328 - (1 + 1 + 3 + 2) / 12 * 100\<bar>
                   < (1 / 10 ^ 13 :: rat))"
proof -
  let ?qf = "identify_quantum_features pj"
  obtain v where v: "compute_qgeps (if aromatic_rings ?qf \<noteq> 0 then 3 else 1)
          (if radical_pairs ?qf \<noteq> 0 then 3 else 1)
          (if metal_clusters ?qf \<noteq> 0 then 3 else 1) 2 = Inr v"
    using qgeps_total by blast
  obtain e where e: "audit_quantum_candidate get pdb_id part_id nm sm = (Inr e, add_entry e sm)"
      "dict_get e ''Q-GEPS_Score'' = PFloat v"
    using audit_quantum_candidate_result [OF assms v] by blast
  have scen: "compute_qgeps 1 1 3 2 = Inr v \<and> v = Dbl (8209686820727467 / 140737488355328)"
    if fe: "\<exists>a \<in> set (atoms pj). atom_name a = ''FE''"
      and no: "\<forall>a \<in> set (atoms pj). atom_resName a \<notin> {''FAD'', ''PHE'', ''TRP'', ''TYR''}"
  proof -
    have ar: "aromatic_rings ?qf = 0"
      using no by (simp add: identify_quantum_features_def)
    have rp: "radical_pairs ?qf = 0"
      using no by (auto simp: identify_quantum_features_def)
    obtain a where a: "a \<in> set (atoms pj)" "atom_name a = ''FE''" using fe by blast
    then have "filter (\<lambda>a. atom_name a \<in> set [''FE'', ''MN'', ''CU'', ''MG'']) (atoms pj) \<noteq> []"
      by (auto simp: filter_empty_conv)
    then have mc: "metal_clusters ?qf \<noteq> 0"
      by (simp add: identify_quantum_features_def)
    from v ar rp mc show ?thesis by (simp add: qgeps_7)
  qed
  have close: "\<bar>8209686820727467 / 140737488355328 - (1 + 1 + 3 + 2) / 12 * 100\<bar>
                   < (1 / 10 ^ 13 :: rat)"
    by simp
  from e v scen close show ?thesis by blast
qed

theorem quantum_audit_score_inputs_witness:
  "\<exists>e. audit_quantum_candidate fetch_fe ''6ZU0'' ''CRY-001'' ''Cryptochrome 4'' init_ShopManual
          = (Inr e, add_entry e init_ShopManual)
       \<and> dict_get e ''Q-GEPS_Score'' = PFloat (Dbl (8209686820727467 / 140737488355328))"
proof -
  obtain pj where pj: "parse_pdb_to_json fe_line = Inr pj" "atoms pj = [fe_atom]"
    using parse_fe_line by blast
  have fe: "\<exists>a \<in> set (atoms pj). atom_name a = ''FE''"
    by (simp add: pj fe_atom_def)
  have no: "\<forall>a \<in> set (atoms pj). atom_resName a \<notin> {''FAD'', ''PHE'', ''TRP'', ''TYR''}"
    by (simp add: pj fe_atom_def)
  from quantum_audit_score_inputs [OF fetch_fe_text pj(1), where part_id = "''CRY-001''"
      and nm = "''Cryptochrome 4''" and sm = init_ShopManual] fe no
  show ?thesis by blast
qed

text \<open>
  C10. The \<open>Q-GEPS_Score\<close> of every entry a quantum audit produces is one of four
  binary64 values, those of \<open>(s / 12.0) * 100\<close> for \<open>s\<close> = 5, 7, 9, 11 (41.66666666666667,
  58.333333333333336, 75.0, 91.66666666666666: each within \<open>10^-13\<close> of \<open>s/12*100\<close>); it is
  at least \<open>5/12*100\<close>, at most \<open>11/12*100\<close>, and so below 100.
\<close>

theorem quantum_score_range:
  assumes "audit_quantum_candidate get pdb_id part_id nm sm = (Inr e, sm')"
  shows "\<exists>v. dict_get e ''Q-GEPS_Score'' = PFloat (Dbl v)
     \<and> v \<in> {2932031007402667 / 70368744177664, 8209686820727467 / 140737488355328, 75,
            3225234108142933 / 35184372088832}
     \<and> 5 / 12 * 100 \<le> v \<and> v \<le> 11 / 12 * 100 \<and> v < 100
     \<and> \<bar>2932031007402667 / 70368744177664 - 5 / 12 * 100\<bar> < (1 / 10 ^ 13 :: rat)
     \<and> \<bar>8209686820727467 / 140737488355328 - 7 / 12 * 100\<bar> < (1 / 10 ^ 13 :: rat)
     \<and> \<bar>3225234108142933 / 35184372088832 - 11 / 12 * 100\<bar> < (1 / 10 ^ 13 :: rat)"
proof -
  obtain pj w where w: "compute_qgeps
        (if aromatic_rings (identify_quantum_features pj) \<noteq> 0 then 3 else 1)
        (if radical_pairs (identify_quantum_features pj) \<noteq> 0 then 3 else 1)
        (if metal_clusters (identify_quantum_features pj) \<noteq> 0 then 3 else 1) 2 = Inr w"
      "dict_get e ''Q-GEPS_Score'' = PFloat w"
    using audit_quantum_candidate_Inr [OF assms] by blast
  have "Inr w \<in> {Inr (Dbl (2932031007402667 / 70368744177664)),
      Inr (Dbl (8209686820727467 / 140737488355328)), Inr (Dbl 75),
      Inr (Dbl (3225234108142933 / 35184372088832)) :: pyerror + pyfloat}"
    using qgeps_cases [of "if aromatic_rings (identify_quantum_features pj) \<noteq> 0 then 3 else 1"
        "if radical_pairs (identify_quantum_features pj) \<noteq> 0 then 3 else 1"
        "if metal_clusters (identify_quantum_features pj) \<noteq> 0 then 3 else 1"] w(1)
    by auto
  then have "w = Dbl (2932031007402667 / 70368744177664)
      \<or> w = Dbl (8209686820727467 / 140737488355328) \<or> w = Dbl 75
      \<or> w = Dbl (3225234108142933 / 35184372088832)"
    by simp
  then obtain v where v: "w = Dbl v"
      "v \<in> {2932031007402667 / 70368744177664, 8209686820727467 / 140737488355328, 75,
            3225234108142933 / 35184372088832}"
    by blast
  from v(2) have "5 / 12 * 100 \<le> v \<and> v \<le> 11 / 12 * 100 \<and> v < 100" by auto
  with v w(2) show ?thesis by simp
qed

theorem quantum_score_range_witness:
  "\<exists>e sm' v. audit_quantum_candidate fetch_fe ''6ZU0'' ''CRY-001'' ''Cryptochrome 4'' init_ShopManual
          = (Inr e, sm')
       \<and> dict_get e ''Q-GEPS_Score'' = PFloat (Dbl v) \<and> 5 / 12 * 100 \<le> v \<and> v \<le> 11 / 12 * 100"
proof -
  obtain pj where pj: "parse_pdb_to_json fe_line = Inr pj" "atoms pj = [fe_atom]"
    using parse_fe_line by blast
  obtain w where "compute_qgeps
        (if aromatic_rings (identify_quantum_features pj) \<noteq> 0 then 3 else 1)
        (if radical_pairs (identify_quantum_features pj) \<noteq> 0 then 3 else 1)
        (if metal_clusters (identify_quantum_features pj) \<noteq> 0 then 3 else 1) 2 = Inr w"
    using qgeps_total by blast
  from audit_quantum_candidate_result [OF fetch_fe_text pj(1) this]
  obtain e where e: "audit_quantum_candidate fetch_fe ''6ZU0'' ''CRY-001'' ''Cryptochrome 4''
      init_ShopManual = (Inr e, add_entry e init_ShopManual)"
    by blast
  from quantum_score_range [OF e] e show ?thesis by blast
qed

lemma audit_structure_result:
  assumes "fetch_pdb get (t ''PDB'') = Inr text" and "parse_pdb_to_json text = Inr pj"
    and "t ''PartID'' = Some part_id"
  shows "\<exists>e. audit_structure get t sm = (Inr e, add_entry e sm)
     \<and> dict_get e ''PartID'' = PStr part_id
     \<and> dict_get e ''GEPS_Score'' = PFloat (Dbl 100)
     \<and> dict_get e ''DataSources'' = PStr (''PDB:'' @ format_str (t ''PDB''))
     \<and> dict_get e ''Atoms'' = PList (map atom_dict (atoms pj))"
  using assms by (simp add: audit_structure_def Let_def dict_get_def geps_24)

lemma audit_structure_Inr:
  assumes "audit_structure get t sm = (Inr e, sm')"
  shows "sm' = add_entry e sm \<and> dict_get e ''GEPS_Score'' = PFloat (Dbl 100)
     \<and> dict_get e ''PartID'' = str_or_none (t ''PartID'')"
  using assms unfolding audit_structure_def Let_def
  by (auto simp: dict_get_def geps_24 str_or_none_def split: sum.splits option.splits)

lemma audit_structure_Inl:
  assumes "audit_structure get t sm = (Inl err, sm')"
  shows "sm' = sm"
  using assms unfolding audit_structure_def Let_def
  by (auto split: sum.splits option.splits)




subsection \<open>The catalogue is append-only\<close>

lemma iterencode_list_snoc:
  "iterencode_list fr l (xs @ [y]) =
     iterencode_list fr l xs @ (if xs = [] then [] else '','' @ newline_indent l) @ iterencode fr l y"
  by (induction xs) auto

lemma to_json_two_appends:
  "fst (to_json fr (add_entry e2 (add_entry e1 sm))) =
     ''['' @ newline_indent 1 @ iterencode_list fr 1 (map PDict (entries sm))
     @ (if entries sm = [] then [] else '','' @ newline_indent 1)
     @ iterencode fr 1 (PDict e1) @ '','' @ newline_indent 1 @ iterencode fr 1 (PDict e2)
     @ newline_indent 0 @ '']''"
proof -
  let ?xs = "map PDict (entries sm)"
  have m: "map PDict (entries (add_entry e2 (add_entry e1 sm))) = (?xs @ [PDict e1]) @ [PDict e2]"
    by (simp add: add_entry_def)
  have "fst (to_json fr (add_entry e2 (add_entry e1 sm)))
      = iterencode fr 0 (PList ((?xs @ [PDict e1]) @ [PDict e2]))"
    by (simp only: to_json_def json_dumps_def fst_conv m)
  also have "\<dots> = ''['' @ newline_indent 1
      @ iterencode_list fr 1 ((?xs @ [PDict e1]) @ [PDict e2]) @ newline_indent 0 @ '']''"
    by (simp del: iterencode_list.simps append_assoc)
  also have "iterencode_list fr 1 ((?xs @ [PDict e1]) @ [PDict e2])
      = iterencode_list fr 1 ?xs @ (if entries sm = [] then [] else '','' @ newline_indent 1)
        @ iterencode fr 1 (PDict e1) @ '','' @ newline_indent 1 @ iterencode fr 1 (PDict e2)"
    by (simp only: iterencode_list_snoc [of fr 1 "?xs @ [PDict e1]" "PDict e2"]
          iterencode_list_snoc [of fr 1 ?xs "PDict e1"])
       (simp del: iterencode.simps)
  finally show ?thesis by (simp del: iterencode.simps)
qed

lemma audit_structure_entries:
  "\<exists>rs. entries (snd (audit_structure get t sm)) = entries sm @ rs
     \<and> (case fst (audit_structure get t sm) of Inr e \<Rightarrow> rs = [e] | Inl err \<Rightarrow> rs = [])"
proof (cases "audit_structure get t sm")
  case (Pair r sm')
  show ?thesis
  proof (cases r)
    case (Inl err)
    with Pair audit_structure_Inl [of get t sm err sm'] show ?thesis by simp
  next
    case (Inr e)
    with Pair audit_structure_Inr [of get t sm e sm'] show ?thesis by (simp add: add_entry_def)
  qed
qed

lemma audit_quantum_candidate_Inl:
  assumes "audit_quantum_candidate get pdb_id part_id nm sm = (Inl err, sm')"
  shows "sm' = sm"
  using assms unfolding audit_quantum_candidate_def Let_def
  by (auto split: sum.splits)

lemma audit_quantum_candidate_entries:
  "\<exists>rs. entries (snd (audit_quantum_candidate get pdb_id part_id nm sm)) = entries sm @ rs
     \<and> (case fst (audit_quantum_candidate get pdb_id part_id nm sm) of
           Inr e \<Rightarrow> rs = [e] | Inl err \<Rightarrow> rs = [])"
proof (cases "audit_quantum_candidate get pdb_id part_id nm sm")
  case (Pair r sm')
  show ?thesis
  proof (cases r)
    case (Inl err)
    with Pair audit_quantum_candidate_Inl [of get pdb_id part_id nm sm err sm']
    show ?thesis by simp
  next
    case (Inr e)
    with Pair audit_quantum_candidate_Inr [of get pdb_id part_id nm sm e sm']
    show ?thesis by (auto simp: add_entry_def)
  qed
qed

lemma run_batch_Inr:
  "run_batch get ts sm = (Inr rs, sm') \<Longrightarrow>
     entries sm' = entries sm @ rs
     \<and> map (\<lambda>e. dict_get e ''PartID'') rs = map (\<lambda>t. str_or_none (t ''PartID'')) ts"
proof (induction ts arbitrary: sm rs sm')
  case Nil
  then show ?case by simp
next
  case (Cons t ts)
  from Cons.prems obtain r sm1 rs1 where
    a: "audit_structure get t sm = (Inr r, sm1)" and
    b: "run_batch get ts sm1 = (Inr rs1, sm')" and
    c: "rs = r # rs1"
    by (auto split: prod.splits sum.splits)
  from audit_structure_Inr [OF a] Cons.IH [OF b] c
  show ?case by (simp add: add_entry_def)
qed

lemma run_batch_Inl:
  "run_batch get ts sm = (Inl err, sm') \<Longrightarrow>
     \<exists>rs. entries sm' = entries sm @ rs \<and> length rs < length ts
       \<and> map (\<lambda>e. dict_get e ''PartID'') rs
           = map (\<lambda>t. str_or_none (t ''PartID'')) (take (length rs) ts)"
proof (induction ts arbitrary: sm sm')
  case Nil
  then show ?case by simp
next
  case (Cons t ts)
  show ?case
  proof (cases "audit_structure get t sm")
    case (Pair r sm1)
    show ?thesis
    proof (cases r)
      case (Inl e)
      with Pair Cons.prems have "sm' = sm1" by simp
      moreover have "sm1 = sm" using Pair Inl audit_structure_Inl by blast
      ultimately show ?thesis by simp
    next
      case (Inr r1)
      with Pair Cons.prems have b: "run_batch get ts sm1 = (Inl err, sm')"
        by (auto split: prod.splits sum.splits)
      from Cons.IH [OF b] obtain rs where rs: "entries sm' = entries sm1 @ rs"
          "length rs < length ts"
          "map (\<lambda>e. dict_get e ''PartID'') rs
             = map (\<lambda>t. str_or_none (t ''PartID'')) (take (length rs) ts)"
        by blast
      from Pair Inr audit_structure_Inr [of get t sm r1 sm1]
      have a: "entries sm1 = entries sm @ [r1]" "dict_get r1 ''PartID'' = str_or_none (t ''PartID'')"
        by (simp_all add: add_entry_def)
      have "entries sm' = entries sm @ (r1 # rs)" using rs(1) a(1) by simp
      moreover have "length (r1 # rs) < length (t # ts)" using rs(2) by simp
      moreover have "map (\<lambda>e. dict_get e ''PartID'') (r1 # rs)
             = map (\<lambda>t. str_or_none (t ''PartID'')) (take (length (r1 # rs)) (t # ts))"
        using rs(3) a(2) by simp
      ultimately show ?thesis by blast
    qed
  qed
qed

text \<open>
  C8. \<open>add_entry\<close> puts the new entry at the end and changes nothing else; after
  appending E1 then E2 the entries end with E1, E2 and the JSON text of \<open>to_json\<close> lists
  the text of E1 before that of E2. \<open>to_json\<close> and \<open>get_entry_by_id\<close> leave the manual as it
  is; an audit appends its entry when it succeeds and leaves the manual as it is when it
  raises; \<open>run_batch\<close> appends the entries of its targets in the order of the targets,
  and when an audit raises, the entries of the targets before it.
\<close>

theorem catalogue_append_only:
  "entries (add_entry e sm) = entries sm @ [e]
   \<and> entries (add_entry e2 (add_entry e1 sm)) = entries sm @ [e1, e2]
   \<and> fst (to_json fr (add_entry e2 (add_entry e1 sm))) =
       ''['' @ newline_indent 1 @ iterencode_list fr 1 (map PDict (entries sm))
       @ (if entries sm = [] then [] else '','' @ newline_indent 1)
       @ iterencode fr 1 (PDict e1) @ '','' @ newline_indent 1 @ iterencode fr 1 (PDict e2)
       @ newline_indent 0 @ '']''
   \<and> snd (to_json fr sm) = sm
   \<and> snd (get_entry_by_id pid sm) = sm
   \<and> (\<exists>rs. entries (snd (audit_structure get t sm)) = entries sm @ rs
         \<and> (case fst (audit_structure get t sm) of Inr r \<Rightarrow> rs = [r] | Inl err \<Rightarrow> rs = []))
   \<and> (\<exists>rs. entries (snd (audit_quantum_candidate get pdb_id part_id nm sm)) = entries sm @ rs
         \<and> (case fst (audit_quantum_candidate get pdb_id part_id nm sm) of
               Inr r \<Rightarrow> rs = [r] | Inl err \<Rightarrow> rs = []))
   \<and> (\<forall>rs sm'. run_batch get ts sm = (Inr rs, sm') \<longrightarrow>
         entries sm' = entries sm @ rs
         \<and> map (\<lambda>r. dict_get r ''PartID'') rs = map (\<lambda>t. str_or_none (t ''PartID'')) ts)
   \<and> (\<forall>err sm'. run_batch get ts sm = (Inl err, sm') \<longrightarrow>
         (\<exists>rs. entries sm' = entries sm @ rs \<and> length rs < length ts
            \<and> map (\<lambda>r. dict_get r ''PartID'') rs
                = map (\<lambda>t. str_or_none (t ''PartID'')) (take (length rs) ts)))"
proof -
  have a: "entries (add_entry e sm) = entries sm @ [e]"
      "entries (add_entry e2 (add_entry e1 sm)) = entries sm @ [e1, e2]"
    by (simp_all add: add_entry_def)
  have b: "snd (to_json fr sm) = sm" "snd (get_entry_by_id pid sm) = sm"
    by (simp_all add: to_json_def get_entry_by_id_def)
  show ?thesis
    using a b to_json_two_appends [of fr e2 e1 sm] audit_structure_entries [of get t sm]
      audit_quantum_candidate_entries [of get pdb_id part_id nm sm]
      run_batch_Inr [of get ts sm] run_batch_Inl [of get ts sm]
    by blast
qed

lemma newline_indent_vals:
  "newline_indent 0 = ''\<newline>''" "newline_indent 1 = ''\<newline>  ''"
  "newline_indent 2 = ''\<newline>    ''" "newline_indent (Suc 0) = ''\<newline>  ''"
  "newline_indent (Suc (Suc 0)) = ''\<newline>    ''"
  by (simp_all add: newline_indent_def eval_nat_numeral)

lemma int_repr_1: "int_repr 1 = ''1''"
  by code_simp

lemma audit_two_lines:
  "\<exists>e. audit_structure fetch_two_lines mag_target sm = (Inr e, add_entry e sm)"
proof -
  obtain pj where pj: "parse_pdb_to_json (header_line @ [CHR 0x0C] @ fe_line) = Inr pj"
    using parse_pdb_to_json_atoms by blast
  have f: "fetch_pdb fetch_two_lines (mag_target ''PDB'')
      = Inr (header_line @ [CHR 0x0C] @ fe_line)"
    by (simp add: mag_target_def fetch_two_lines_text)
  have p: "mag_target ''PartID'' = Some ''MAG-001''" by (simp add: mag_target_def)
  from audit_structure_result [OF f pj p, of sm] show ?thesis by blast
qed

theorem catalogue_append_only_witness:
  "entries (add_entry entry_b (add_entry entry_a init_ShopManual)) = [entry_a, entry_b]
   \<and> fst (to_json repr_whole (add_entry entry_b (add_entry entry_a init_ShopManual))) =
       ''[\<newline>  {\<newline>    \"PartID\": \"A\",\<newline>    \"n\": 1\<newline>  },\<newline>  {\<newline>    \"PartID\": \"B\",\<newline>    \"ok\": true\<newline>  }\<newline>]''
   \<and> (\<exists>rs sm'. run_batch fetch_two_lines [mag_target, mag_target] init_ShopManual = (Inr rs, sm')
        \<and> entries sm' = rs
        \<and> map (\<lambda>r. dict_get r ''PartID'') rs = [PStr ''MAG-001'', PStr ''MAG-001''])"
proof -
  note inst = catalogue_append_only [where e = entry_b and sm = init_ShopManual
      and ?e1.0 = entry_a and ?e2.0 = entry_b and fr = repr_whole and get = fetch_two_lines
      and ts = "[mag_target, mag_target]"]
  have enc: "iterencode repr_whole 1 (PDict entry_a) = ''{\<newline>    \"PartID\": \"A\",\<newline>    \"n\": 1\<newline>  }''"
    "iterencode repr_whole 1 (PDict entry_b) = ''{\<newline>    \"PartID\": \"B\",\<newline>    \"ok\": true\<newline>  }''"
    by (simp_all add: entry_a_def entry_b_def newline_indent_vals encode_str_def escape_char_def
          int_repr_1)
  obtain e1 where e1: "audit_structure fetch_two_lines mag_target init_ShopManual
      = (Inr e1, add_entry e1 init_ShopManual)"
    using audit_two_lines by blast
  obtain e2 where e2: "audit_structure fetch_two_lines mag_target (add_entry e1 init_ShopManual)
      = (Inr e2, add_entry e2 (add_entry e1 init_ShopManual))"
    using audit_two_lines by blast
  have run: "run_batch fetch_two_lines [mag_target, mag_target] init_ShopManual
      = (Inr [e1, e2], add_entry e2 (add_entry e1 init_ShopManual))"
    by (simp add: e1 e2)
  have ids: "map (\<lambda>t. str_or_none (t ''PartID'')) [mag_target, mag_target]
      = [PStr ''MAG-001'', PStr ''MAG-001'']"
    by (simp add: mag_target_def str_or_none_def)
  from inst run ids
  have r: "entries (add_entry e2 (add_entry e1 init_ShopManual)) = [e1, e2]
      \<and> map (\<lambda>r. dict_get r ''PartID'') [e1, e2] = [PStr ''MAG-001'', PStr ''MAG-001'']"
    by (auto simp: init_ShopManual_def)
  from inst have a: "entries (add_entry entry_b (add_entry entry_a init_ShopManual))
      = [entry_a, entry_b]"
    by (simp add: init_ShopManual_def)
  from inst have raw:
    "fst (to_json repr_whole (add_entry entry_b (add_entry entry_a init_ShopManual))) =
       ''['' @ newline_indent 1 @ iterencode_list repr_whole 1 (map PDict (entries init_ShopManual))
       @ (if entries init_ShopManual = [] then [] else '','' @ newline_indent 1)
       @ iterencode repr_whole 1 (PDict entry_a) @ '','' @ newline_indent 1
       @ iterencode repr_whole 1 (PDict entry_b) @ newline_indent 0 @ '']''"
    by blast
  have j: "fst (to_json repr_whole (add_entry entry_b (add_entry entry_a init_ShopManual))) =
       ''[\<newline>  {\<newline>    \"PartID\": \"A\",\<newline>    \"n\": 1\<newline>  },\<newline>  {\<newline>    \"PartID\": \"B\",\<newline>    \"ok\": true\<newline>  }\<newline>]''"
    unfolding raw enc by (simp add: init_ShopManual_def newline_indent_vals)
  from run r have ex: "\<exists>rs sm'.
      run_batch fetch_two_lines [mag_target, mag_target] init_ShopManual = (Inr rs, sm')
      \<and> entries sm' = rs
      \<and> map (\<lambda>r. dict_get r ''PartID'') rs = [PStr ''MAG-001'', PStr ''MAG-001'']"
    by (intro exI [of _ "[e1, e2]"] exI [of _ "add_entry e2 (add_entry e1 init_ShopManual)"])
       (simp only: simp_thms)
  show ?thesis by (rule conjI [OF a conjI [OF j ex]])
qed

subsection \<open>Rounding to binary64\<close>

lemma pow2_powi: "pow2 e = 2 powi e"
  by (simp add: pow2_def power_int_def inverse_eq_divide power_divide)

lemma pow2_pos [simp]: "0 < pow2 e"
  by (simp add: pow2_def)

lemma pow2_nonzero [simp]: "pow2 e \<noteq> 0" "\<not> pow2 e \<le> 0" "\<not> pow2 e < 0" "0 \<le> pow2 e"
  using pow2_pos [of e] by linarith+

lemma pow2_add: "pow2 (a + b) = pow2 a * pow2 b"
  by (simp add: pow2_powi power_int_add)

lemma pow2_diff: "pow2 (a - b) = pow2 a / pow2 b"
  by (simp add: pow2_powi power_int_diff)

lemma pow2_mono: "a \<le> b \<Longrightarrow> pow2 a \<le> pow2 b"
  by (simp add: pow2_powi power_int_increasing)

lemma pow2_strict_mono: "a < b \<Longrightarrow> pow2 a < pow2 b"
  by (simp add: pow2_powi power_int_strict_increasing)

lemma pow2_nat: "pow2 (int n) = 2 ^ n"
  by (simp add: pow2_def)

lemma pow2_0 [simp]: "pow2 0 = 1"
  by (simp add: pow2_def)

lemma pow2_neg_nat: "pow2 (- int n) = 1 / 2 ^ n"
  by (auto simp: pow2_def)

lemma of_nat_less_pow2: "n < 2 ^ k \<Longrightarrow> (of_nat n :: rat) + 1 \<le> 2 ^ k"
proof -
  assume "n < 2 ^ k"
  then have "Suc n \<le> 2 ^ k" by simp
  then have "(of_nat (Suc n) :: rat) \<le> of_nat (2 ^ k)" by (simp only: of_nat_le_iff)
  then show ?thesis by simp
qed

lemma pow2_le_of_nat: "2 ^ k \<le> n \<Longrightarrow> (2 ^ k :: rat) \<le> of_nat n"
proof -
  assume "2 ^ k \<le> n"
  then have "(of_nat (2 ^ k) :: rat) \<le> of_nat n" by (simp only: of_nat_le_iff)
  then show ?thesis by simp
qed

lemma round_half_even_bounds:
  "\<bar>of_int (round_half_even q) - q\<bar> \<le> 1 / 2"
proof -
  have f: "of_int \<lfloor>q\<rfloor> \<le> q" "q < of_int \<lfloor>q\<rfloor> + 1"
    by linarith+
  show ?thesis
    unfolding round_half_even_def Let_def
    using f by (auto simp: abs_le_iff split: if_splits)
qed

lemma round_half_even_of_int [simp]: "round_half_even (of_int k) = k"
  by (simp add: round_half_even_def)

lemma round_half_even_lt:
  assumes "q < of_int k - 1 / 2"
  shows "round_half_even q < k"
proof -
  have "of_int (round_half_even q) - q \<le> 1 / 2"
    using round_half_even_bounds [of q] by linarith
  then have "(of_int (round_half_even q) :: rat) < of_int k" using assms by linarith
  then show ?thesis by (simp only: of_int_less_iff)
qed

lemma round_half_even_ge:
  assumes "of_int k - 1 / 2 < q"
  shows "k \<le> round_half_even q"
proof -
  have "q - of_int (round_half_even q) \<le> 1 / 2"
    using round_half_even_bounds [of q] by linarith
  then have "(of_int k :: rat) - 1 < of_int (round_half_even q)" using assms by linarith
  then have "(of_int (k - 1) :: rat) < of_int (round_half_even q)" by simp
  then have "k - 1 < round_half_even q" by (simp only: of_int_less_iff)
  then show ?thesis by simp
qed

lemma round_half_even_tie_odd:
  assumes "odd k"
  shows "round_half_even (of_int k + 1 / 2) = k + 1"
proof -
  have "\<lfloor>(of_int k :: rat) + 1 / 2\<rfloor> = k" by (simp add: floor_unique)
  then show ?thesis using assms by (simp add: round_half_even_def)
qed

lemma binade_bounds:
  assumes "0 < q"
  shows "pow2 (binade q) \<le> q \<and> q < pow2 (binade q + 1)"
proof (cases "1 \<le> q")
  case True
  define n where "n = nat \<lfloor>q\<rfloor>"
  have fl: "1 \<le> \<lfloor>q\<rfloor>" using True by linarith
  have n1: "0 < n" using fl by (simp add: n_def)
  define k where "k = floorlog 2 n"
  have k: "2 ^ (k - 1) \<le> n" "n < 2 ^ k"
    using floorlog_bounds [of n 2] n1 by (simp_all add: k_def)
  have k1: "0 < k" using k(2) n1 by (cases k) auto
  have b: "binade q = int k - 1" using True by (simp add: binade_def n_def k_def)
  have nn: "(of_nat n :: rat) = of_int \<lfloor>q\<rfloor>" using fl by (simp add: n_def)
  have nq: "of_nat n \<le> q" "q < of_nat n + 1"
    unfolding nn by linarith+
  have "int k - 1 = int (k - 1)" using k1 by simp
  then have "pow2 (int k - 1) = 2 ^ (k - 1)" by (simp only: pow2_nat)
  also have "\<dots> \<le> (of_nat n :: rat)" using k(1) by (rule pow2_le_of_nat)
  finally have lo: "pow2 (binade q) \<le> q" using nq(1) b by simp
  have "of_nat n + 1 \<le> (2 ^ k :: rat)" using k(2) by (rule of_nat_less_pow2)
  moreover have "pow2 (binade q + 1) = 2 ^ k" using b by (simp add: pow2_nat)
  ultimately have hi: "q < pow2 (binade q + 1)" using nq(2) by simp
  from lo hi show ?thesis by simp
next
  case False
  then have q1: "q < 1" by simp
  define c where "c = \<lceil>1 / q\<rceil>"
  have x1: "1 < 1 / q" using assms q1 by simp
  have xc: "1 / q \<le> of_int c" "of_int c - 1 < 1 / q"
    unfolding c_def by linarith+
  have "(1 :: rat) < of_int c" using x1 xc(1) by linarith
  then have "1 < c" by simp
  then have c2: "2 \<le> c" by simp
  define n where "n = nat (c - 1)"
  have n1: "0 < n" using c2 by (simp add: n_def)
  define k where "k = floorlog 2 n"
  have k: "2 ^ (k - 1) \<le> n" "n < 2 ^ k"
    using floorlog_bounds [of n 2] n1 by (simp_all add: k_def)
  have b: "binade q = - int k" using False by (simp add: binade_def n_def k_def c_def)
  have cn: "of_int c = (of_nat n :: rat) + 1" using c2 by (simp add: n_def)
  have "of_nat n + 1 \<le> (2 ^ k :: rat)" using k(2) by (rule of_nat_less_pow2)
  then have "1 / q \<le> 2 ^ k" using xc(1) cn by linarith
  then have "1 \<le> 2 ^ k * q" using assms by (simp add: field_simps)
  then have "1 / 2 ^ k \<le> q" by (simp add: field_simps)
  then have lo: "pow2 (binade q) \<le> q" using b by (simp add: pow2_neg_nat)
  have k1: "0 < k" using k(2) n1 by (cases k) auto
  have "(2 ^ (k - 1) :: rat) \<le> of_nat n" using k(1) by (rule pow2_le_of_nat)
  then have "2 ^ (k - 1) < 1 / q" using xc(2) cn by linarith
  then have "2 ^ (k - 1) * q < 1" using assms by (simp add: field_simps)
  then have "q < 1 / 2 ^ (k - 1)" by (simp add: field_simps)
  moreover have "- int k + 1 = - int (k - 1)" using k1 by simp
  then have "pow2 (- int k + 1) = 1 / 2 ^ (k - 1)" by (simp only: pow2_neg_nat)
  ultimately have hi: "q < pow2 (binade q + 1)" using b by simp
  from lo hi show ?thesis by simp
qed

lemma binade_unique:
  assumes "pow2 e \<le> q" "q < pow2 (e + 1)"
  shows "binade q = e"
proof -
  have q: "0 < q" using assms(1) pow2_pos [of e] by linarith
  note b = binade_bounds [OF q]
  have "pow2 e < pow2 (binade q + 1)" using assms(1) b by linarith
  then have 1: "e < binade q + 1"
    using pow2_mono [of "binade q + 1" e] by (cases "e < binade q + 1") auto
  have "pow2 (binade q) < pow2 (e + 1)" using assms(2) b by linarith
  then have 2: "binade q < e + 1"
    using pow2_mono [of "e + 1" "binade q"] by (cases "binade q < e + 1") auto
  from 1 2 show ?thesis by simp
qed

lemma round_half_even_gt:
  assumes "of_int k + 1 / 2 < q"
  shows "k < round_half_even q"
proof -
  have "q - of_int (round_half_even q) \<le> 1 / 2"
    using round_half_even_bounds [of q] by linarith
  then have "(of_int k :: rat) < of_int (round_half_even q)" using assms by linarith
  then show ?thesis by (simp only: of_int_less_iff)
qed

lemma round_half_even_le:
  assumes "q < of_int k + 1 / 2"
  shows "round_half_even q \<le> k"
proof -
  have "of_int (round_half_even q) - q \<le> 1 / 2"
    using round_half_even_bounds [of q] by linarith
  then have "(of_int (round_half_even q) :: rat) < of_int k + 1" using assms by linarith
  then have "(of_int (round_half_even q) :: rat) < of_int (k + 1)" by simp
  then have "round_half_even q < k + 1" by (simp only: of_int_less_iff)
  then show ?thesis by simp
qed

lemma round_half_even_tie_even:
  assumes "even k"
  shows "round_half_even (of_int k + 1 / 2) = k"
proof -
  have "\<lfloor>(of_int k :: rat) + 1 / 2\<rfloor> = k" by (simp add: floor_unique)
  then show ?thesis using assms by (simp add: round_half_even_def)
qed

lemma pow2_half: "pow2 (e - 1) = pow2 e / 2"
  using pow2_diff [of e 1] by (simp add: pow2_def)

lemma pow2_53: "pow2 53 = 2 ^ 53"
  by (simp add: pow2_def)

lemma round_to_double_unfold:
  assumes "x \<noteq> 0"
  shows "round_to_double x =
     (if 1023 < max (binade \<bar>x\<bar>) (- 1022)
         \<or> (max (binade \<bar>x\<bar>) (- 1022) = 1023
             \<and> 2 ^ 53 \<le> \<bar>round_half_even (x / pow2 (max (binade \<bar>x\<bar>) (- 1022) - 52))\<bar>)
      then (if 0 < x then PosInf else NegInf)
      else Dbl (of_int (round_half_even (x / pow2 (max (binade \<bar>x\<bar>) (- 1022) - 52)))
                * pow2 (max (binade \<bar>x\<bar>) (- 1022) - 52)))"
  using assms by (simp add: round_to_double_def Let_def)

lemma top_binade_quotient:
  "(pow2 1024 - pow2 970) / pow2 971 = 2 ^ 53 - 1 / 2"
proof -
  have "pow2 1024 = pow2 971 * pow2 53" using pow2_add [of 971 53] by simp
  moreover have "pow2 970 = pow2 971 / 2" using pow2_half [of 971] by simp
  ultimately show ?thesis using pow2_pos [of 971] by (simp add: field_simps pow2_53)
qed

lemma round_to_double_finite:
  assumes lo: "pow2 (- 1022) \<le> \<bar>x\<bar>" and hi: "\<bar>x\<bar> < pow2 1024 - pow2 970"
  shows "\<exists>r. round_to_double x = Dbl r \<and> \<bar>r - x\<bar> \<le> \<bar>x\<bar> / 2 ^ 53"
proof -
  have x0: "x \<noteq> 0" using lo by auto
  define e where "e = binade \<bar>x\<bar>"
  have b: "pow2 e \<le> \<bar>x\<bar>" "\<bar>x\<bar> < pow2 (e + 1)"
    using binade_bounds [of "\<bar>x\<bar>"] x0 by (simp_all add: e_def)
  have "pow2 (- 1022) < pow2 (e + 1)" using lo b(2) by linarith
  then have e_lo: "- 1022 \<le> e"
    using pow2_mono [of "e + 1" "- 1022"] by (cases "- 1022 < e + 1") auto
  have "pow2 e < pow2 1024" using b(1) hi pow2_pos [of 970] by linarith
  then have e_hi: "e \<le> 1023"
    using pow2_mono [of 1024 e] by (cases "e < 1024") auto
  have mx: "max (binade \<bar>x\<bar>) (- 1022) = e" using e_lo by (simp add: e_def)
  define u where "u = pow2 (e - 52)"
  define m where "m = round_half_even (x / u)"
  have u0: "0 < u" by (simp add: u_def)
  have "\<bar>of_int m - x / u\<bar> \<le> 1 / 2" unfolding m_def by (rule round_half_even_bounds)
  then have "\<bar>of_int m - x / u\<bar> * u \<le> 1 / 2 * u" using u0 by (simp only: mult_le_cancel_right_pos)
  moreover have "\<bar>of_int m - x / u\<bar> * u = \<bar>(of_int m - x / u) * u\<bar>"
    using u0 by (simp add: abs_mult)
  moreover have "(of_int m - x / u) * u = of_int m * u - x"
    using u0 by (simp add: field_simps)
  ultimately have err: "\<bar>of_int m * u - x\<bar> \<le> u / 2" by simp
  have "u / 2 = pow2 e / 2 ^ 53"
    using pow2_diff [of e 53] pow2_half [of "e - 52"] by (simp add: u_def pow2_53)
  also have "\<dots> \<le> \<bar>x\<bar> / 2 ^ 53" using b(1) by (simp add: divide_right_mono)
  finally have err2: "\<bar>of_int m * u - x\<bar> \<le> \<bar>x\<bar> / 2 ^ 53" using err by linarith
  have small: "\<bar>m\<bar> < 2 ^ 53" if top: "e = 1023"
  proof -
    have u971: "u = pow2 971" using top by (simp add: u_def)
    define y where "y = x / u"
    have a: "\<bar>x\<bar> / u < (pow2 1024 - pow2 970) / u"
      using hi u0 by (simp add: divide_strict_right_mono)
    have b: "\<bar>x\<bar> / u = \<bar>y\<bar>" using u0 by (simp add: y_def)
    have c: "(pow2 1024 - pow2 970) / u = 2 ^ 53 - 1 / 2"
      unfolding u971 by (rule top_binade_quotient)
    have q: "\<bar>y\<bar> < 2 ^ 53 - 1 / 2" using a unfolding b c .
    have "y < of_int (2 ^ 53) - 1 / 2" using q by simp
    then have 1: "m < 2 ^ 53" unfolding m_def y_def [symmetric] by (rule round_half_even_lt)
    have "of_int (- (2 ^ 53)) + 1 / 2 < y" using q by simp
    then have 2: "- (2 ^ 53) < m" unfolding m_def y_def [symmetric] by (rule round_half_even_gt)
    from 1 2 show ?thesis by simp
  qed
  have "round_to_double x = Dbl (of_int m * u)"
    using round_to_double_unfold [OF x0] e_hi small
    by (auto simp: mx u_def m_def)
  with err2 show ?thesis by blast
qed

lemma round_to_double_overflow:
  assumes "pow2 1024 - pow2 970 \<le> \<bar>x\<bar>"
  shows "round_to_double x = (if 0 < x then PosInf else NegInf)"
proof -
  have p: "pow2 1023 \<le> pow2 1024 - pow2 970"
  proof -
    have "pow2 1023 = pow2 1024 / 2" using pow2_half [of 1024] by simp
    moreover have "pow2 970 \<le> pow2 1023" by (rule pow2_mono) simp
    ultimately show ?thesis by simp
  qed
  have x0: "x \<noteq> 0"
  proof
    assume "x = 0"
    then have "\<bar>x\<bar> = 0" by simp
    with assms p have "pow2 1023 \<le> 0" by linarith
    then show False by simp
  qed
  define e where "e = binade \<bar>x\<bar>"
  have b: "pow2 e \<le> \<bar>x\<bar>" "\<bar>x\<bar> < pow2 (e + 1)"
    using binade_bounds [of "\<bar>x\<bar>"] x0 by (simp_all add: e_def)
  have "pow2 1023 < pow2 (e + 1)" using assms p b(2) by linarith
  then have e_lo: "1023 \<le> e"
    using pow2_mono [of "e + 1" 1023] by (cases "1023 < e + 1") auto
  have mx: "max (binade \<bar>x\<bar>) (- 1022) = e" using e_lo by (simp add: e_def)
  show ?thesis
  proof (cases "e = 1023")
    case False
    then have "1023 < e" using e_lo by simp
    then show ?thesis using round_to_double_unfold [OF x0] by (simp add: mx)
  next
    case True
    define u where "u = pow2 971"
    define m where "m = round_half_even (x / u)"
    have u0: "0 < u" by (simp add: u_def)
    define y where "y = x / u"
    have ym: "m = round_half_even y" by (simp add: m_def y_def)
    have a: "(pow2 1024 - pow2 970) / u \<le> \<bar>x\<bar> / u"
      using assms u0 by (simp add: divide_right_mono)
    have b: "\<bar>x\<bar> / u = \<bar>y\<bar>" using u0 by (simp add: y_def)
    have c: "(pow2 1024 - pow2 970) / u = 2 ^ 53 - 1 / 2"
      unfolding u_def by (rule top_binade_quotient)
    have q: "2 ^ 53 - 1 / 2 \<le> \<bar>y\<bar>" using a unfolding b c .
    have ysign: "0 < x \<Longrightarrow> 0 < y" "x < 0 \<Longrightarrow> y < 0"
      using u0 by (simp_all add: y_def divide_neg_pos)
    have big: "2 ^ 53 \<le> \<bar>m\<bar>"
    proof (cases "0 < x")
      case True
      then have xu: "2 ^ 53 - 1 / 2 \<le> y" using q ysign(1) by linarith
      show ?thesis
      proof (cases "y = 2 ^ 53 - 1 / 2")
        case True
        have t: "round_half_even (of_int (2 ^ 53 - 1) + 1 / 2) = (2 ^ 53 - 1) + 1"
          by (rule round_half_even_tie_odd) simp
        have yv: "y = of_int (2 ^ 53 - 1) + 1 / 2" using True by simp
        have "m = (2 ^ 53 - 1) + 1" unfolding ym yv by (rule t)
        then show ?thesis by simp
      next
        case False
        then have "of_int (2 ^ 53) - 1 / 2 < y" using xu by simp
        then have "2 ^ 53 \<le> m" unfolding ym by (rule round_half_even_ge)
        then show ?thesis by simp
      qed
    next
      case False
      then have "x < 0" using x0 by simp
      then have xu: "y \<le> - (2 ^ 53) + 1 / 2" using q ysign(2) by linarith
      show ?thesis
      proof (cases "y = - (2 ^ 53) + 1 / 2")
        case True
        have t: "round_half_even (of_int (- (2 ^ 53)) + 1 / 2) = - (2 ^ 53)"
          by (rule round_half_even_tie_even) simp
        have yv: "y = of_int (- (2 ^ 53)) + 1 / 2" using True by simp
        have "m = - (2 ^ 53)" unfolding ym yv by (rule t)
        then show ?thesis by simp
      next
        case False
        then have "y < of_int (- (2 ^ 53)) + 1 / 2" using xu by simp
        then have "m \<le> - (2 ^ 53)" unfolding ym by (rule round_half_even_le)
        then show ?thesis by simp
      qed
    qed
    show ?thesis
      using round_to_double_unfold [OF x0] True big
      by (simp add: mx m_def u_def)
  qed
qed

lemma overflow_bound_int: "of_int (2 ^ 1024 - 2 ^ 970) = pow2 1024 - pow2 970"
  by (simp add: pow2_def)

lemma pow2_1023_le: "pow2 1023 \<le> pow2 1024 - pow2 970"
proof -
  have "pow2 1023 = pow2 1024 / 2" using pow2_half [of 1024] by simp
  moreover have "pow2 970 \<le> pow2 1023" by (rule pow2_mono) simp
  ultimately show ?thesis by simp
qed

lemma below_overflow:
  assumes "e \<le> 1023" "\<bar>x\<bar> < pow2 e"
  shows "\<bar>x\<bar> < pow2 1024 - pow2 970"
  using assms pow2_mono [of e 1023] pow2_1023_le by linarith

lemma abs_of_int_rat: "\<bar>of_int n :: rat\<bar> = of_int \<bar>n\<bar>"
  by simp

lemma float_of_int_finite:
  assumes "\<bar>n\<bar> < 2 ^ 1024 - 2 ^ 970"
  shows "\<exists>r. float_of_int n = Inr (Dbl r) \<and> \<bar>r - of_int n\<bar> \<le> \<bar>of_int n\<bar> / 2 ^ 53"
proof (cases "n = 0")
  case True
  then show ?thesis by (simp add: float_of_int_def round_to_double_def)
next
  case False
  then have "1 \<le> \<bar>n\<bar>" by simp
  then have "(of_int 1 :: rat) \<le> of_int \<bar>n\<bar>" by (simp only: of_int_le_iff)
  then have one: "1 \<le> \<bar>of_int n :: rat\<bar>" by simp
  have "pow2 (- 1022) \<le> pow2 0" by (rule pow2_mono) simp
  then have lo: "pow2 (- 1022) \<le> \<bar>of_int n :: rat\<bar>" using one by simp
  have "(of_int \<bar>n\<bar> :: rat) < of_int (2 ^ 1024 - 2 ^ 970)"
    using assms by (simp only: of_int_less_iff)
  then have hi: "\<bar>of_int n :: rat\<bar> < pow2 1024 - pow2 970"
    unfolding overflow_bound_int by simp
  from round_to_double_finite [OF lo hi] show ?thesis
    by (auto simp: float_of_int_def)
qed

lemma float_of_int_overflow:
  assumes "2 ^ 1024 - 2 ^ 970 \<le> \<bar>n\<bar>"
  shows "float_of_int n = Inl OverflowError"
proof -
  have "(of_int (2 ^ 1024 - 2 ^ 970) :: rat) \<le> of_int \<bar>n\<bar>"
    using assms by (simp only: of_int_le_iff)
  then have "pow2 1024 - pow2 970 \<le> \<bar>of_int n :: rat\<bar>"
    unfolding overflow_bound_int by simp
  from round_to_double_overflow [OF this] show ?thesis
    by (simp add: float_of_int_def)
qed

lemma float_of_int_100: "float_of_int 100 = Inr (Dbl 100)"
  by code_simp

lemma times_100_eq: "times_100 v = Inr (float_mul v (Dbl 100))"
  by (simp add: times_100_def float_of_int_100)

lemma rel_step:
  fixes r x y :: rat
  assumes "\<bar>r - x\<bar> \<le> a * \<bar>x\<bar>" "\<bar>x - y\<bar> \<le> b * \<bar>y\<bar>" "0 \<le> a"
  shows "\<bar>r - y\<bar> \<le> (a + b + a * b) * \<bar>y\<bar>"
proof -
  have "\<bar>x\<bar> \<le> \<bar>y\<bar> + b * \<bar>y\<bar>" using assms(2) by linarith
  then have "a * \<bar>x\<bar> \<le> a * (\<bar>y\<bar> + b * \<bar>y\<bar>)" using assms(3) by (rule mult_left_mono)
  then have "\<bar>r - x\<bar> \<le> a * \<bar>y\<bar> + a * b * \<bar>y\<bar>" using assms(1) by (simp add: algebra_simps)
  then have "\<bar>r - y\<bar> \<le> a * \<bar>y\<bar> + a * b * \<bar>y\<bar> + b * \<bar>y\<bar>" using assms(2) by linarith
  then show ?thesis by (simp add: algebra_simps)
qed

lemma rel_bounds:
  fixes x y :: rat
  assumes "\<bar>x - y\<bar> \<le> b * \<bar>y\<bar>" "b \<le> 1 / 2"
  shows "\<bar>y\<bar> / 2 \<le> \<bar>x\<bar> \<and> \<bar>x\<bar> \<le> 2 * \<bar>y\<bar>"
proof -
  have "b * \<bar>y\<bar> \<le> 1 / 2 * \<bar>y\<bar>" using assms(2) by (rule mult_right_mono) simp
  then show ?thesis using assms(1) by linarith
qed

lemma pow2_small: "pow2 (- 1022) \<le> 1 / 128"
proof -
  have "pow2 (- 1022) \<le> pow2 (- 7)" by (rule pow2_mono) simp
  also have "pow2 (- 7) = 1 / 128" by (simp add: pow2_def)
  finally show ?thesis .
qed

lemma round_to_double_rel:
  assumes "1 / 128 \<le> \<bar>x\<bar>" "\<bar>x\<bar> < 2 ^ 1010"
  shows "\<exists>r. round_to_double x = Dbl r \<and> \<bar>r - x\<bar> \<le> 1 / 2 ^ 53 * \<bar>x\<bar>"
proof -
  have lo: "pow2 (- 1022) \<le> \<bar>x\<bar>" using assms(1) pow2_small by linarith
  have "pow2 1010 = 2 ^ 1010" by (simp add: pow2_def)
  then have "\<bar>x\<bar> < pow2 1010" using assms(2) by simp
  then have hi: "\<bar>x\<bar> < pow2 1024 - pow2 970" by (rule below_overflow [rotated]) simp
  from round_to_double_finite [OF lo hi] show ?thesis by (simp add: field_simps)
qed

lemma score_accuracy:
  fixes d :: rat and n :: int
  assumes d: "1 \<le> d" "d \<le> 64" and n: "\<bar>n\<bar> < 2 ^ 1000"
  shows "\<exists>v. (case int_over n d of Inl e \<Rightarrow> Inl e | Inr w \<Rightarrow> times_100 w) = Inr (Dbl v)
     \<and> \<bar>v - of_int n / d * 100\<bar> \<le> \<bar>of_int n / d * 100\<bar> / 2 ^ 51"
proof (cases "n = 0")
  case True
  have "float_of_int 0 = Inr (Dbl 0)" by (simp add: float_of_int_def round_to_double_def)
  then show ?thesis
    using True d by (simp add: int_over_def times_100_eq round_to_double_def)
next
  case False
  define q :: rat where "q = of_int n"
  define eps :: rat where "eps = 1 / 2 ^ 53"
  have eps: "0 \<le> eps" "eps \<le> 1 / 2" by (simp_all add: eps_def)
  have "1 \<le> \<bar>n\<bar>" using False by simp
  then have "(of_int 1 :: rat) \<le> of_int \<bar>n\<bar>" by (simp only: of_int_le_iff)
  then have q1: "1 \<le> \<bar>q\<bar>" by (simp add: q_def)
  have "(of_int \<bar>n\<bar> :: rat) < of_int (2 ^ 1000)" using n by (simp only: of_int_less_iff)
  then have q2: "\<bar>q\<bar> < 2 ^ 1000" by (simp add: q_def)
  have "\<bar>n\<bar> < 2 ^ 1024 - 2 ^ 970" using n by simp
  from float_of_int_finite [OF this]
  obtain r1 where r1: "float_of_int n = Inr (Dbl r1)" "\<bar>r1 - q\<bar> \<le> eps * \<bar>q\<bar>"
    by (auto simp: q_def eps_def)
  have d0: "0 < d" using d(1) by simp
  define y2 where "y2 = q / d"
  define x2 where "x2 = r1 / d"
  have ay2: "\<bar>y2\<bar> = \<bar>q\<bar> / d" using d0 by (simp add: y2_def)
  have "\<bar>y2\<bar> * d = \<bar>q\<bar>" using d0 by (simp add: ay2)
  have y2lo: "1 / 64 \<le> \<bar>y2\<bar>"
  proof -
    have "1 / 64 \<le> 1 / d" using d d0 by (simp add: field_simps)
    also have "1 / d \<le> \<bar>q\<bar> / d" using q1 d0 by (simp add: divide_right_mono)
    finally show ?thesis by (simp add: ay2)
  qed
  have y2hi: "\<bar>y2\<bar> < 2 ^ 1000"
  proof -
    have "\<bar>q\<bar> / d \<le> \<bar>q\<bar> / 1" using d(1) by (intro divide_left_mono) simp_all
    then show ?thesis using q2 by (simp add: ay2)
  qed
  have "x2 - y2 = (r1 - q) / d" by (simp add: x2_def y2_def diff_divide_distrib)
  then have "\<bar>x2 - y2\<bar> = \<bar>r1 - q\<bar> / d" using d0 by simp
  also have "\<dots> \<le> eps * \<bar>q\<bar> / d" using r1(2) d0 by (simp add: divide_right_mono)
  also have "\<dots> = eps * \<bar>y2\<bar>" by (simp add: ay2)
  finally have e2: "\<bar>x2 - y2\<bar> \<le> eps * \<bar>y2\<bar>" .
  from rel_bounds [OF e2 eps(2)] have b2: "\<bar>y2\<bar> / 2 \<le> \<bar>x2\<bar>" "\<bar>x2\<bar> \<le> 2 * \<bar>y2\<bar>" by simp_all
  have x2lo: "1 / 128 \<le> \<bar>x2\<bar>" using b2(1) y2lo by linarith
  have x2hi: "\<bar>x2\<bar> < 2 ^ 1010" using b2(2) y2hi by simp
  from round_to_double_rel [OF x2lo x2hi]
  obtain r2 where r2: "round_to_double x2 = Dbl r2" "\<bar>r2 - x2\<bar> \<le> eps * \<bar>x2\<bar>"
    by (auto simp: eps_def)
  have io: "int_over n d = Inr (Dbl r2)"
    using r1(1) r2(1) d0 by (simp add: int_over_def x2_def)
  define eta where "eta = eps + eps + eps * eps"
  have eta: "eta \<le> 1 / 2" by (simp add: eta_def eps_def)
  from rel_step [OF r2(2) e2 eps(1)] have e3: "\<bar>r2 - y2\<bar> \<le> eta * \<bar>y2\<bar>"
    by (simp add: eta_def)
  define y3 where "y3 = y2 * 100"
  define x3 where "x3 = r2 * 100"
  have ay3: "\<bar>y3\<bar> = \<bar>y2\<bar> * 100" by (simp add: y3_def abs_mult)
  have "x3 - y3 = (r2 - y2) * 100" by (simp add: x3_def y3_def algebra_simps)
  then have "\<bar>x3 - y3\<bar> = \<bar>(r2 - y2) * 100\<bar>" by (simp only:)
  also have "\<dots> = \<bar>r2 - y2\<bar> * \<bar>100\<bar>" by (rule abs_mult)
  finally have "\<bar>x3 - y3\<bar> = \<bar>r2 - y2\<bar> * 100" by simp
  then have e4: "\<bar>x3 - y3\<bar> \<le> eta * \<bar>y3\<bar>" using e3 by (simp add: ay3)
  from rel_bounds [OF e4 eta] have b3: "\<bar>y3\<bar> / 2 \<le> \<bar>x3\<bar>" "\<bar>x3\<bar> \<le> 2 * \<bar>y3\<bar>" by simp_all
  have x3lo: "1 / 128 \<le> \<bar>x3\<bar>" using b3(1) y2lo ay3 by linarith
  have "\<bar>y3\<bar> < 2 ^ 1000 * 100" using y2hi by (simp add: ay3)
  then have x3hi: "\<bar>x3\<bar> < 2 ^ 1010" using b3(2) by simp
  from round_to_double_rel [OF x3lo x3hi]
  obtain r3 where r3: "round_to_double x3 = Dbl r3" "\<bar>r3 - x3\<bar> \<le> eps * \<bar>x3\<bar>"
    by (auto simp: eps_def)
  have res: "(case int_over n d of Inl e \<Rightarrow> Inl e | Inr w \<Rightarrow> times_100 w) = Inr (Dbl r3)"
    using r3(1) by (simp add: io times_100_eq x3_def)
  from rel_step [OF r3(2) e4 eps(1)] have "\<bar>r3 - y3\<bar> \<le> (eps + eta + eps * eta) * \<bar>y3\<bar>" .
  moreover have "eps + eta + eps * eta \<le> 1 / 2 ^ 51" by (simp add: eta_def eps_def)
  ultimately have "\<bar>r3 - y3\<bar> \<le> 1 / 2 ^ 51 * \<bar>y3\<bar>"
    by (meson abs_ge_zero mult_right_mono order_trans)
  then have "\<bar>r3 - of_int n / d * 100\<bar> \<le> \<bar>of_int n / d * 100\<bar> / 2 ^ 51"
    by (simp add: y3_def y2_def q_def)
  with res show ?thesis by blast
qed

subsection \<open>The scoring functions\<close>

lemma qgeps_12: "compute_qgeps 3 3 3 3 = Inr (Dbl 100)"
  by code_simp

lemma geps_32: "compute_geps 4 4 4 4 4 4 4 4 = Inr (Dbl (2345624805922133 / 17592186044416))"
  by code_simp

lemma geps_neg: "compute_geps (- 1) 0 0 0 0 0 0 0 = Inr (Dbl (- (2345624805922133 / 562949953421312)))"
  by code_simp

lemma score_returns:
  assumes "\<bar>n\<bar> < 2 ^ 1024 - 2 ^ 970" "d \<noteq> 0"
  shows "\<exists>v. (case int_over n d of Inl e \<Rightarrow> Inl e | Inr w \<Rightarrow> times_100 w) = Inr v"
proof -
  obtain r where "float_of_int n = Inr (Dbl r)"
    using float_of_int_finite [OF assms(1)] by blast
  then show ?thesis using assms(2) by (simp add: int_over_def times_100_eq)
qed

lemma score_raises:
  assumes "2 ^ 1024 - 2 ^ 970 \<le> \<bar>n\<bar>"
  shows "(case int_over n d of Inl e \<Rightarrow> Inl e | Inr w \<Rightarrow> times_100 w) = Inl OverflowError"
  using float_of_int_overflow [OF assms] by (simp add: int_over_def)

lemma score_sign_and_range:
  fixes d :: rat and n k :: int
  assumes d: "d = of_int k" "1 \<le> k" "k \<le> 64" and n: "\<bar>n\<bar> < 2 ^ 1000"
    and top: "(case int_over k d of Inl e \<Rightarrow> Inl e | Inr w \<Rightarrow> times_100 w) = Inr (Dbl 100)"
  shows "\<exists>v. (case int_over n d of Inl e \<Rightarrow> Inl e | Inr w \<Rightarrow> times_100 w) = Inr (Dbl v)
     \<and> \<bar>v - of_int n / d * 100\<bar> \<le> \<bar>of_int n / d * 100\<bar> / 2 ^ 51
     \<and> (100 < v \<longleftrightarrow> k < n) \<and> (v < 0 \<longleftrightarrow> n < 0)"
proof -
  have d1: "1 \<le> d" "d \<le> 64" using d by simp_all
  have d0: "0 < d" using d1 by simp
  obtain v where v: "(case int_over n d of Inl e \<Rightarrow> Inl e | Inr w \<Rightarrow> times_100 w) = Inr (Dbl v)"
      "\<bar>v - of_int n / d * 100\<bar> \<le> \<bar>of_int n / d * 100\<bar> / 2 ^ 51"
    using score_accuracy [OF d1 n] by blast
  define y :: rat where "y = of_int n / d * 100"
  have "\<bar>v - y\<bar> \<le> \<bar>y\<bar> / 2 ^ 51" using v(2) by (simp add: y_def)
  moreover have "\<bar>y\<bar> / 2 ^ 51 \<le> \<bar>y\<bar> / 1024"
    by (rule divide_left_mono) simp_all
  ultimately have err: "\<bar>v - y\<bar> \<le> \<bar>y\<bar> / 1024" by (rule order_trans)
  have ynd: "y * d = of_int n * 100" using d0 by (simp add: y_def)
  have neg: "v < 0" if "n < 0"
  proof -
    have "(of_int n :: rat) < 0" using that by simp
    then have "y < 0" using d0 by (simp add: y_def divide_neg_pos mult_neg_pos)
    then show ?thesis using err by linarith
  qed
  have nonneg: "0 \<le> v" if "0 \<le> n"
  proof -
    have "(0 :: rat) \<le> of_int n" using that by simp
    then have "0 \<le> y" using d0 by (simp add: y_def)
    then show ?thesis using err by linarith
  qed
  have above: "100 < v" if "k < n"
  proof -
    have "k + 1 \<le> n" using that by simp
    then have "(of_int (k + 1) :: rat) \<le> of_int n" by (simp only: of_int_le_iff)
    then have "(d + 1) * 100 \<le> y * d" using ynd d(1) by simp
    moreover have "d * (100 + 100 / 64) \<le> (d + 1) * 100" using d1 by (simp add: algebra_simps)
    ultimately have "(100 + 100 / 64) * d \<le> y * d" by (simp add: mult.commute)
    then have "100 + 100 / 64 \<le> y" using d0 by (simp only: mult_le_cancel_right_pos)
    then show ?thesis using err by linarith
  qed
  have below: "v \<le> 100" if "n \<le> k"
  proof (cases "n = k")
    case True
    then show ?thesis using v(1) top by simp
  next
    case False
    then have "n \<le> k - 1" using that by simp
    then have "(of_int n :: rat) \<le> of_int (k - 1)" by (simp only: of_int_le_iff)
    then have "y * d \<le> (d - 1) * 100" using ynd d(1) by simp
    moreover have "(d - 1) * 100 \<le> d * (100 - 100 / 64)" using d1 by (simp add: algebra_simps)
    ultimately have "y * d \<le> (100 - 100 / 64) * d" by (simp add: mult.commute)
    then have "y \<le> 100 - 100 / 64" using d0 by (simp only: mult_le_cancel_right_pos)
    then show ?thesis using err by linarith
  qed
  have "(100 < v) = (k < n)" using above below by fastforce
  moreover have "(v < 0) = (n < 0)" using neg nonneg by fastforce
  ultimately show ?thesis using v by blast
qed

lemma top_score_24: "(case int_over 24 24 of Inl e \<Rightarrow> Inl e | Inr w \<Rightarrow> times_100 w) = Inr (Dbl 100)"
  using geps_24 by (simp add: compute_geps_score)

lemma top_score_12: "(case int_over 12 12 of Inl e \<Rightarrow> Inl e | Inr w \<Rightarrow> times_100 w) = Inr (Dbl 100)"
  using qgeps_12 by (simp add: compute_qgeps_score)

text \<open>
  C3 (as amended). The scoring functions are pure functions of the sum \<open>s\<close> of their
  integer arguments, with no bounds checking. They return a float when
  \<open>\<bar>s\<bar> < 2^1024 - 2^970\<close> and raise \<open>OverflowError\<close> for every larger sum (the conversion of
  \<open>s\<close> to float). For \<open>\<bar>s\<bar> < 2^1000\<close> the result is the finite binary64 value of
  \<open>(s / 24.0) * 100\<close>, respectively \<open>(s / 12.0) * 100\<close>, within relative error \<open>2^-51\<close> of
  \<open>s/24*100\<close>, respectively \<open>s/12*100\<close>; it exceeds 100 exactly when the sum exceeds 24,
  respectively 12, and is negative exactly when the sum is negative.
  \<open>compute_geps(3,3,3,3,3,3,3,3)\<close> is 100.0 and \<open>compute_qgeps(1,1,1,2)\<close> is
  41.66666666666667.
\<close>

theorem scores_within_float_range:
  fixes a b c d e f g h p q r t :: int
  defines "s \<equiv> a + b + c + d + e + f + g + h" and "u \<equiv> p + q + r + t"
  shows "(\<bar>s\<bar> < 2 ^ 1024 - 2 ^ 970 \<longrightarrow> (\<exists>v. compute_geps a b c d e f g h = Inr v))
     \<and> (2 ^ 1024 - 2 ^ 970 \<le> \<bar>s\<bar> \<longrightarrow> compute_geps a b c d e f g h = Inl OverflowError)
     \<and> (\<bar>s\<bar> < 2 ^ 1000 \<longrightarrow>
          (\<exists>v. compute_geps a b c d e f g h = Inr (Dbl v)
             \<and> \<bar>v - of_int s / 24 * 100\<bar> \<le> \<bar>of_int s / 24 * 100\<bar> / 2 ^ 51
             \<and> (100 < v \<longleftrightarrow> 24 < s) \<and> (v < 0 \<longleftrightarrow> s < 0)))
     \<and> (\<bar>u\<bar> < 2 ^ 1024 - 2 ^ 970 \<longrightarrow> (\<exists>v. compute_qgeps p q r t = Inr v))
     \<and> (2 ^ 1024 - 2 ^ 970 \<le> \<bar>u\<bar> \<longrightarrow> compute_qgeps p q r t = Inl OverflowError)
     \<and> (\<bar>u\<bar> < 2 ^ 1000 \<longrightarrow>
          (\<exists>v. compute_qgeps p q r t = Inr (Dbl v)
             \<and> \<bar>v - of_int u / 12 * 100\<bar> \<le> \<bar>of_int u / 12 * 100\<bar> / 2 ^ 51
             \<and> (100 < v \<longleftrightarrow> 12 < u) \<and> (v < 0 \<longleftrightarrow> u < 0)))
     \<and> compute_geps 3 3 3 3 3 3 3 3 = Inr (Dbl 100)
     \<and> compute_qgeps 1 1 1 2 = Inr (Dbl (2932031007402667 / 70368744177664))
     \<and> \<bar>2932031007402667 / 70368744177664 - 5 / 12 * 100\<bar> < (1 / 10 ^ 13 :: rat)"
proof -
  have g: "compute_geps a b c d e f g h =
      (case int_over s 24 of Inl e \<Rightarrow> Inl e | Inr w \<Rightarrow> times_100 w)"
    by (simp add: compute_geps_score s_def)
  have k: "compute_qgeps p q r t =
      (case int_over u 12 of Inl e \<Rightarrow> Inl e | Inr w \<Rightarrow> times_100 w)"
    by (simp add: compute_qgeps_score u_def)
  have g1: "\<bar>s\<bar> < 2 ^ 1024 - 2 ^ 970 \<Longrightarrow> \<exists>v. compute_geps a b c d e f g h = Inr v"
    unfolding g by (rule score_returns) simp_all
  have g2: "2 ^ 1024 - 2 ^ 970 \<le> \<bar>s\<bar> \<Longrightarrow> compute_geps a b c d e f g h = Inl OverflowError"
    unfolding g by (rule score_raises)
  have g3: "\<bar>s\<bar> < 2 ^ 1000 \<Longrightarrow>
      \<exists>v. compute_geps a b c d e f g h = Inr (Dbl v)
        \<and> \<bar>v - of_int s / 24 * 100\<bar> \<le> \<bar>of_int s / 24 * 100\<bar> / 2 ^ 51
        \<and> (100 < v \<longleftrightarrow> 24 < s) \<and> (v < 0 \<longleftrightarrow> s < 0)"
    unfolding g using score_sign_and_range [of 24 24 s] top_score_24 by simp
  have k1: "\<bar>u\<bar> < 2 ^ 1024 - 2 ^ 970 \<Longrightarrow> \<exists>v. compute_qgeps p q r t = Inr v"
    unfolding k by (rule score_returns) simp_all
  have k2: "2 ^ 1024 - 2 ^ 970 \<le> \<bar>u\<bar> \<Longrightarrow> compute_qgeps p q r t = Inl OverflowError"
    unfolding k by (rule score_raises)
  have k3: "\<bar>u\<bar> < 2 ^ 1000 \<Longrightarrow>
      \<exists>v. compute_qgeps p q r t = Inr (Dbl v)
        \<and> \<bar>v - of_int u / 12 * 100\<bar> \<le> \<bar>of_int u / 12 * 100\<bar> / 2 ^ 51
        \<and> (100 < v \<longleftrightarrow> 12 < u) \<and> (v < 0 \<longleftrightarrow> u < 0)"
    unfolding k using score_sign_and_range [of 12 12 u] top_score_12 by simp
  have c: "\<bar>2932031007402667 / 70368744177664 - 5 / 12 * 100\<bar> < (1 / 10 ^ 13 :: rat)"
    by simp
  from g1 g2 g3 k1 k2 k3 geps_24 qgeps_5 c show ?thesis by blast
qed

theorem scores_within_float_range_witness:
  "(\<exists>v. compute_geps 4 4 4 4 4 4 4 4 = Inr (Dbl v) \<and> 100 < v)
   \<and> (\<exists>v. compute_geps (- 1) 0 0 0 0 0 0 0 = Inr (Dbl v) \<and> v < 0)
   \<and> (\<exists>v. compute_qgeps 1 1 1 2 = Inr (Dbl v) \<and> \<not> 100 < v \<and> \<not> v < 0)
   \<and> compute_qgeps (2 ^ 1024 - 2 ^ 970) 0 0 0 = Inl OverflowError
   \<and> (\<exists>v. compute_qgeps (2 ^ 1024 - 2 ^ 970 - 1) 0 0 0 = Inr v)"
proof -
  have small: "\<bar>4 + 4 + 4 + 4 + 4 + 4 + 4 + 4 :: int\<bar> < 2 ^ 1000"
    "\<bar>- 1 + 0 + 0 + 0 + 0 + 0 + 0 + 0 :: int\<bar> < 2 ^ 1000"
    "\<bar>1 + 1 + 1 + 2 :: int\<bar> < 2 ^ 1000"
    by simp_all
  have edge: "2 ^ 1024 - 2 ^ 970 \<le> \<bar>2 ^ 1024 - 2 ^ 970 + 0 + 0 + 0 :: int\<bar>"
    "\<bar>2 ^ 1024 - 2 ^ 970 - 1 + 0 + 0 + 0 :: int\<bar> < 2 ^ 1024 - 2 ^ 970"
    by simp_all
  note i1 = scores_within_float_range [of 4 4 4 4 4 4 4 4 1 1 1 2]
  note i2 = scores_within_float_range [of "- 1" 0 0 0 0 0 0 0 "2 ^ 1024 - 2 ^ 970" 0 0 0]
  note i3 = scores_within_float_range [of 0 0 0 0 0 0 0 0 "2 ^ 1024 - 2 ^ 970 - 1" 0 0 0]
  have 1: "\<exists>v. compute_geps 4 4 4 4 4 4 4 4 = Inr (Dbl v) \<and> 100 < v"
  proof -
    from i1 small(1) obtain v where v: "compute_geps 4 4 4 4 4 4 4 4 = Inr (Dbl v)"
        "(100 < v) = (24 < (4 + 4 + 4 + 4 + 4 + 4 + 4 + 4 :: int))"
      by blast
    from v(2) have "100 < v" by simp
    with v(1) show ?thesis by blast
  qed
  have 3: "\<exists>v. compute_qgeps 1 1 1 2 = Inr (Dbl v) \<and> \<not> 100 < v \<and> \<not> v < 0"
  proof -
    from i1 small(3) obtain v where v: "compute_qgeps 1 1 1 2 = Inr (Dbl v)"
        "(100 < v) = (12 < (1 + 1 + 1 + 2 :: int))" "(v < 0) = ((1 + 1 + 1 + 2 :: int) < 0)"
      by blast
    from v(2,3) have "\<not> 100 < v" "\<not> v < 0" by simp_all
    with v(1) show ?thesis by blast
  qed
  have 2: "\<exists>v. compute_geps (- 1) 0 0 0 0 0 0 0 = Inr (Dbl v) \<and> v < 0"
  proof -
    from i2 small(2) obtain v where v: "compute_geps (- 1) 0 0 0 0 0 0 0 = Inr (Dbl v)"
        "(v < 0) = ((- 1 + 0 + 0 + 0 + 0 + 0 + 0 + 0 :: int) < 0)"
      by blast
    from v(2) have "v < 0" by simp
    with v(1) show ?thesis by blast
  qed
  from i2 edge(1) have 4: "compute_qgeps (2 ^ 1024 - 2 ^ 970) 0 0 0 = Inl OverflowError"
    by blast
  from i3 edge(2) have 5: "\<exists>v. compute_qgeps (2 ^ 1024 - 2 ^ 970 - 1) 0 0 0 = Inr v"
    by blast
  from 1 2 3 4 5 show ?thesis by blast
qed

text \<open>
  The scoring functions are not total on the integers: on a sum of \<open>2^1024\<close> the
  division \<open>score / 12.0\<close> (and \<open>score / 24.0\<close>) raises \<open>OverflowError\<close>.
\<close>

theorem scores_raise_on_huge_sum:
  "compute_qgeps (2 ^ 1024) 0 0 0 = Inl OverflowError
   \<and> compute_geps (2 ^ 1024) 0 0 0 0 0 0 0 = Inl OverflowError"
proof -
  have big: "2 ^ 1024 - 2 ^ 970 \<le> \<bar>2 ^ 1024 :: int\<bar>" by simp
  have "compute_qgeps (2 ^ 1024) 0 0 0 = Inl OverflowError"
    unfolding compute_qgeps_score using score_raises [OF big] by simp
  moreover have "compute_geps (2 ^ 1024) 0 0 0 0 0 0 0 = Inl OverflowError"
    unfolding compute_geps_score using score_raises [OF big] by simp
  ultimately show ?thesis by simp
qed

subsection \<open>Serialization round trip\<close>

lemma skip_ws_newline_indent [simp]: "skip_ws (newline_indent l @ s) = skip_ws s"
  by (simp add: skip_ws_def newline_indent_def is_json_ws_def dropWhile_append)

lemma skip_ws_blank [simp]: "skip_ws (CHR '' '' # s) = skip_ws s"
  by (simp add: skip_ws_def is_json_ws_def)

lemma skip_ws_none: "\<not> is_json_ws c \<Longrightarrow> skip_ws (c # s) = c # s"
  by (simp add: skip_ws_def)

lemma while_append:
  assumes "rest = [] \<or> \<not> P (hd rest)"
  shows "takeWhile P (xs @ rest) = takeWhile P xs"
    and "dropWhile P (xs @ rest) = dropWhile P xs @ rest"
proof -
  have base: "takeWhile P rest = []" "dropWhile P rest = rest"
    using assms by (cases rest; simp)+
  show "takeWhile P (xs @ rest) = takeWhile P xs" using base by (induction xs) simp_all
  show "dropWhile P (xs @ rest) = dropWhile P xs @ rest" using base by (induction xs) simp_all
qed

lemma hex_value_hex_digit: "k < 16 \<Longrightarrow> hex_value (hex_digit k) = Some k"
proof -
  assume "k < 16"
  then have "k = 0 \<or> k = 1 \<or> k = 2 \<or> k = 3 \<or> k = 4 \<or> k = 5 \<or> k = 6 \<or> k = 7 \<or> k = 8
      \<or> k = 9 \<or> k = 10 \<or> k = 11 \<or> k = 12 \<or> k = 13 \<or> k = 14 \<or> k = 15"
    by arith
  then show ?thesis
    by (auto simp: hex_digit_def hex_value_def)
qed

lemma hex_digit_mod: "hex_digit n = hex_digit (n mod 16)"
  by (simp add: hex_digit_def)

lemma unescape_escape_char:
  assumes "escape_char c \<noteq> [c]"
  shows "\<exists>r. escape_char c = CHR 0x5C # r \<and> (\<forall>x. unescape (r @ x) = Some (c, x))"
proof -
  define n where "n = (of_char c :: nat)"
  have n256: "n < 256" by (simp add: n_def)
  have cn: "char_of n = c" by (simp add: n_def)
  consider "c = CHR 0x22" | "c = CHR 0x5C" | "c = CHR 0x0A" | "c = CHR 0x0D" | "c = CHR 0x09"
    | "c = CHR 0x0C" | "c = CHR 0x08"
    | "c \<notin> {CHR 0x22, CHR 0x5C, CHR 0x0A, CHR 0x0D, CHR 0x09, CHR 0x0C, CHR 0x08}"
    by blast
  then show ?thesis
  proof cases
    case 8
    then have e: "escape_char c =
        [CHR 0x5C, CHR ''u'', CHR ''0'', CHR ''0'', hex_digit (n div 16), hex_digit n]"
      using assms by (auto simp: escape_char_def Let_def n_def split: if_splits)
    have d: "n div 16 < 16" using n256 by simp
    have h: "hex_value (hex_digit (n div 16)) = Some (n div 16)"
        "hex_value (hex_digit n) = Some (n mod 16)"
      using hex_value_hex_digit [OF d] hex_value_hex_digit [of "n mod 16"] hex_digit_mod [of n]
      by simp_all
    have z: "hex_value (CHR ''0'') = Some 0" by (simp add: hex_value_def)
    have "unescape ([CHR ''u'', CHR ''0'', CHR ''0'', hex_digit (n div 16), hex_digit n] @ x)
        = Some (c, x)" for x
      by (simp add: unescape_def h z cn)
    then show ?thesis using e by simp
  qed (simp_all add: escape_char_def unescape_def)
qed

lemma scanstring_escaped:
  "scanstring (concat (map escape_char t) @ CHR 0x22 # rest) = Some (t, rest)"
proof (induction t)
  case Nil
  show ?case by simp
next
  case (Cons c t)
  let ?x = "concat (map escape_char t) @ CHR 0x22 # rest"
  show ?case
  proof (cases "escape_char c = [c]")
    case True
    then have "c \<noteq> CHR 0x22" "c \<noteq> CHR 0x5C" "\<not> (of_char c :: nat) < 32"
      by (auto simp: escape_char_def Let_def split: if_splits)
    then show ?thesis using True Cons.IH by simp
  next
    case False
    then obtain r where r: "escape_char c = CHR 0x5C # r" "\<And>x. unescape (r @ x) = Some (c, x)"
      using unescape_escape_char by blast
    have "r \<noteq> []" using r(2) [of "[]"] by (auto simp: unescape_def)
    then have len: "length ?x < length (r @ ?x)" by simp
    have "scanstring (CHR 0x5C # r @ ?x) = Some (c # t, rest)"
      using r(2) [of ?x] len Cons.IH by simp
    then show ?thesis using r(1) by simp
  qed
qed

lemma scan_once_str:
  "scan_once (Suc n) (encode_str t @ rest) = Some (PStr t, rest)"
  by (simp add: encode_str_def scanstring_escaped)

lemma delimited_cases:
  assumes "delimited rest"
  shows "rest = [] \<or> \<not> isdigit (hd rest)"
    and "rest = [] \<or> (hd rest \<noteq> CHR ''.'' \<and> hd rest \<noteq> CHR ''e'' \<and> hd rest \<noteq> CHR ''E''
           \<and> hd rest \<noteq> CHR ''-'' \<and> hd rest \<noteq> CHR ''+'' \<and> hd rest \<noteq> CHR ''0'')"
  using assms by (auto simp: delimited_def isdigit_def)

lemma scan_integer_append:
  assumes "delimited rest"
  shows "scan_integer (s @ rest) = map_option (\<lambda>(i, r). (i, r @ rest)) (scan_integer s)"
proof -
  note d = delimited_cases [OF assms]
  note w = while_append [of rest isdigit, OF d(1)]
  have tail: "(case r @ rest of
           [] \<Rightarrow> None
         | d # r' \<Rightarrow>
             if d = CHR ''0'' then Some (sg @ [d], r')
             else if isdigit d then Some (sg @ takeWhile isdigit (r @ rest), dropWhile isdigit (r @ rest))
             else None)
      = map_option (\<lambda>(i, r). (i, r @ rest))
          (case r of
           [] \<Rightarrow> None
         | d # r' \<Rightarrow>
             if d = CHR ''0'' then Some (sg @ [d], r')
             else if isdigit d then Some (sg @ takeWhile isdigit r, dropWhile isdigit r)
             else None)" for r sg
  proof (cases r)
    case Nil
    then show ?thesis using d by (cases rest) auto
  next
    case (Cons a r')
    then show ?thesis using w [of "a # r'"] by auto
  qed
  show ?thesis
  proof (cases s)
    case Nil
    then show ?thesis
      using d tail [where r = "[]" and sg = "[]"] by (cases rest) (auto simp: scan_integer_def)
  next
    case (Cons c s')
    show ?thesis
    proof (cases "c = CHR ''-''")
      case True
      then show ?thesis
        using Cons tail [where r = s' and sg = "[CHR ''-'']"] by (simp add: scan_integer_def)
    next
      case False
      then show ?thesis
        using Cons w [of s'] by (simp add: scan_integer_def)
    qed
  qed
qed

lemma scan_fraction_append:
  assumes "delimited rest"
  shows "scan_fraction (s @ rest) = (fst (scan_fraction s), snd (scan_fraction s) @ rest)"
proof -
  note d = delimited_cases [OF assms]
  note w = while_append [of rest isdigit, OF d(1)]
  show ?thesis
  proof (cases s)
    case Nil
    then show ?thesis using d by (cases rest) (auto simp: scan_fraction_def)
  next
    case (Cons c s')
    then show ?thesis using w [of s'] by (auto simp: scan_fraction_def)
  qed
qed

lemma scan_exponent_append:
  assumes "delimited rest"
  shows "scan_exponent (s @ rest) = (fst (scan_exponent s), snd (scan_exponent s) @ rest)"
proof -
  note d = delimited_cases [OF assms]
  note w = while_append [of rest isdigit, OF d(1)]
  have nil: "takeWhile isdigit rest = []" using w(1) [of "[]"] by simp
  show ?thesis
  proof (cases s)
    case Nil
    then show ?thesis using d by (cases rest) (auto simp: scan_exponent_def)
  next
    case c: (Cons c s')
    show ?thesis
    proof (cases s')
      case Nil
      then show ?thesis using c d nil by (cases rest) (auto simp: scan_exponent_def)
    next
      case (Cons a s'')
      then show ?thesis using c w [of s''] w [of s'] by (auto simp: scan_exponent_def Let_def)
    qed
  qed
qed

lemma match_number_append:
  assumes "delimited rest"
  shows "match_number (s @ rest)
     = map_option (\<lambda>(i, f, e, r). (i, f, e, r @ rest)) (match_number s)"
  unfolding match_number_def scan_integer_append [OF assms]
  by (auto simp: scan_fraction_append [OF assms] scan_exponent_append [OF assms]
        split: option.splits prod.splits)

lemma scan_integer_parts: "scan_integer s = Some (i, r) \<Longrightarrow> s = i @ r"
  by (auto simp: scan_integer_def split: list.splits if_splits)

lemma scan_fraction_parts: "fst (scan_fraction s) @ snd (scan_fraction s) = s"
  by (auto simp: scan_fraction_def split: list.splits)

lemma scan_exponent_parts: "fst (scan_exponent s) @ snd (scan_exponent s) = s"
  by (auto simp: scan_exponent_def Let_def split: list.splits)

lemma match_number_parts: "match_number s = Some (i, f, e, r) \<Longrightarrow> s = i @ f @ e @ r"
proof -
  assume m: "match_number s = Some (i, f, e, r)"
  then obtain r0 where i: "scan_integer s = Some (i, r0)"
    by (auto simp: match_number_def split: option.splits prod.splits)
  with m have f: "scan_fraction r0 = (f, snd (scan_fraction r0))"
      and e: "scan_exponent (snd (scan_fraction r0)) = (e, r)"
    by (auto simp: match_number_def split: prod.splits)
  have "s = i @ r0" using i by (rule scan_integer_parts)
  moreover have "r0 = f @ snd (scan_fraction r0)"
    using scan_fraction_parts [of r0] f by (metis fst_conv)
  moreover have "snd (scan_fraction r0) = e @ r"
    using scan_exponent_parts [of "snd (scan_fraction r0)"] e by (metis fst_conv snd_conv)
  ultimately show ?thesis by simp
qed

lemma scan_number_float:
  assumes "float_text_ok fr q" "delimited rest"
  shows "scan_number (fr q @ rest) = Some (PFloat (Dbl q), rest)"
proof -
  from assms(1) obtain i f e where m: "match_number (fr q) = Some (i, f, e, [])"
      and fe: "f \<noteq> [] \<or> e \<noteq> []" and v: "py_float (fr q) = Inr (Dbl q)"
    by (auto simp: float_text_ok_def split: option.splits)
  have t: "i @ f @ e = fr q" using match_number_parts [OF m] by simp
  have "match_number (fr q @ rest) = Some (i, f, e, rest)"
    using m by (simp add: match_number_append [OF assms(2)])
  then show ?thesis
    using fe v unfolding scan_number_def t [symmetric] by auto
qed

lemma digit_char: "(k::nat) < 10 \<Longrightarrow> (of_char (char_of (48 + k)) :: nat) = 48 + k"
  by simp

lemma digit_char_int: "(k::nat) < 10 \<Longrightarrow> (of_char (char_of (48 + k)) :: int) = 48 + int k"
proof -
  assume k: "k < 10"
  have "(of_char (char_of (48 + k)) :: int) = int (of_char (char_of (48 + k)))"
    by (simp add: of_char_def)
  then show ?thesis using digit_char [OF k] by simp
qed

lemma isdigit_digit_char: "(k::nat) < 10 \<Longrightarrow> isdigit (char_of (48 + k))"
  by (simp add: isdigit_def)

lemma digit_char_zero: "(k::nat) < 10 \<Longrightarrow> (char_of (48 + k) = CHR ''0'') = (k = 0)"
proof -
  assume k: "k < 10"
  have "(char_of (48 + k) = CHR ''0'') = ((of_char (char_of (48 + k)) :: nat) = of_char (CHR ''0''))"
    by (simp only: of_char_eq_iff)
  also have "\<dots> = (k = 0)" using k by simp
  finally show ?thesis .
qed

lemma nat_repr_digits: "list_all isdigit (nat_repr n) \<and> nat_repr n \<noteq> []"
proof (induction n rule: nat_repr.induct)
  case (1 n)
  show ?case
  proof (cases "n < 10")
    case True
    then show ?thesis using isdigit_digit_char [of n] by (simp add: nat_repr.simps)
  next
    case False
    then show ?thesis
      using 1 isdigit_digit_char [of "n mod 10"] by (simp add: nat_repr.simps [of n])
  qed
qed

lemma nat_repr_hd: "0 < n \<Longrightarrow> hd (nat_repr n) \<noteq> CHR ''0''"
proof (induction n rule: nat_repr.induct)
  case (1 n)
  show ?case
  proof (cases "n < 10")
    case True
    then show ?thesis using 1(2) digit_char_zero [of n] by (simp add: nat_repr.simps)
  next
    case False
    then have "0 < n div 10" by simp
    then show ?thesis
      using False 1(1) nat_repr_digits [of "n div 10"] by (simp add: nat_repr.simps [of n])
  qed
qed

lemma digits_value_snoc:
  "digits_value (ds @ [c]) = 10 * digits_value ds + (of_char c - 48)"
  by (simp add: digits_value_def)

lemma digits_value_nat_repr: "digits_value (nat_repr n) = int n"
proof (induction n rule: nat_repr.induct)
  case (1 n)
  show ?case
  proof (cases "n < 10")
    case True
    then show ?thesis
      using digit_char_int [of n] by (simp add: nat_repr.simps digits_value_def)
  next
    case False
    have "digits_value (nat_repr n) = 10 * int (n div 10) + int (n mod 10)"
      using False 1 digit_char_int [of "n mod 10"]
      by (simp add: nat_repr.simps [of n] digits_value_snoc)
    then show ?thesis by (simp add: zmod_int zdiv_int)
  qed
qed

lemma takeWhile_all: "list_all P xs \<Longrightarrow> takeWhile P xs = xs \<and> dropWhile P xs = []"
  by (induction xs) auto

lemma scan_integer_nat_repr: "scan_integer (sg @ nat_repr n) = Some (sg @ nat_repr n, [])"
  if "sg = [] \<or> sg = [CHR ''-'']"
proof -
  obtain d ds where ds: "nat_repr n = d # ds"
    using nat_repr_digits [of n] by (cases "nat_repr n") auto
  have all: "list_all isdigit (d # ds)" using nat_repr_digits [of n] ds by simp
  have dig: "isdigit d" "d \<noteq> CHR ''-''" using all by (auto simp: isdigit_def)
  have zero: "ds = []" if "d = CHR ''0''"
  proof (cases "n = 0")
    case True
    then show ?thesis using ds by (simp add: nat_repr.simps)
  next
    case False
    then show ?thesis using nat_repr_hd [of n] ds that by simp
  qed
  show ?thesis
    using that ds dig zero takeWhile_all [OF all]
    by (auto simp: scan_integer_def)
qed

lemma match_number_int_repr: "match_number (int_repr i) = Some (int_repr i, [], [], [])"
proof -
  have "scan_integer (int_repr i) = Some (int_repr i, [])"
    using scan_integer_nat_repr [of "[]"] scan_integer_nat_repr [of "[CHR ''-'']"]
    by (simp add: int_repr_def)
  then show ?thesis
    by (simp add: match_number_def scan_fraction_def scan_exponent_def)
qed

lemma isdigit_plain:
  assumes "isdigit c"
  shows "fold_space c = c" "\<not> ascii_isspace c" "c \<noteq> CHR ''_''" "c \<noteq> CHR ''-''"
    "c \<noteq> CHR ''+''"
proof -
  define n where "n = (of_char c :: nat)"
  have n: "48 \<le> n" "n \<le> 57" using assms by (simp_all add: isdigit_def n_def Let_def)
  show "fold_space c = c" using n unfolding fold_space_def n_def [symmetric] by (simp add: Let_def)
  show "\<not> ascii_isspace c" using n unfolding ascii_isspace_def n_def [symmetric] by (simp add: Let_def)
  have "(of_char (CHR ''_'') :: nat) = 95" "(of_char (CHR ''-'') :: nat) = 45"
    "(of_char (CHR ''+'') :: nat) = 43" by simp_all
  then show "c \<noteq> CHR ''_''" "c \<noteq> CHR ''-''" "c \<noteq> CHR ''+''"
    using n unfolding n_def by auto
qed

lemma no_space_digits:
  assumes "list_all isdigit ds"
  shows "map fold_space ds = ds" "list_all (\<lambda>c. \<not> ascii_isspace c) ds"
    "list_all (\<lambda>c. c \<noteq> CHR ''_'') ds"
  using assms
  by (induction ds) (simp_all add: isdigit_plain)

lemma ungroup_from_plain: "list_all (\<lambda>c. c \<noteq> CHR ''_'') ds \<Longrightarrow> ungroup_from p ds = Some ds"
  by (induction ds arbitrary: p) simp_all

lemma dropWhile_hd: "xs \<noteq> [] \<Longrightarrow> \<not> P (hd xs) \<Longrightarrow> dropWhile P xs = xs"
  by (cases xs) auto

lemma strip_ascii_plain:
  assumes "s \<noteq> []" "\<not> ascii_isspace (hd s)" "\<not> ascii_isspace (last s)"
  shows "strip_ascii s = s"
proof -
  have 1: "dropWhile ascii_isspace s = s" using assms(1,2) by (rule dropWhile_hd)
  have "rev s \<noteq> []" "\<not> ascii_isspace (hd (rev s))" using assms(1,3) by (simp_all add: hd_rev)
  then have 2: "dropWhile ascii_isspace (rev s) = rev s" by (rule dropWhile_hd)
  show ?thesis by (simp add: strip_ascii_def 1 2)
qed

lemma py_int_digits:
  assumes "list_all isdigit ds" "ds \<noteq> []" "sg = [] \<or> sg = [CHR ''-'']"
  shows "py_int (sg @ ds) = Inr (if sg = [] then digits_value ds else - digits_value ds)"
proof -
  note plain = no_space_digits [OF assms(1)]
  have hd: "isdigit (hd ds)" using assms(1,2) by (cases ds) simp_all
  have "last ds \<in> set ds" using assms(2) by simp
  then have last: "\<not> ascii_isspace (last ds)" using plain(2) by (simp add: list_all_iff)
  have f: "map fold_space (sg @ ds) = sg @ ds"
    using assms(3) plain(1) by (auto simp: fold_space_def)
  have s: "strip_ascii (sg @ ds) = sg @ ds"
  proof (rule strip_ascii_plain)
    show "sg @ ds \<noteq> []" using assms(2) by simp
    show "\<not> ascii_isspace (hd (sg @ ds))"
      using assms(3) isdigit_plain(2) [OF hd] by (auto simp: ascii_isspace_def)
    show "\<not> ascii_isspace (last (sg @ ds))" using assms(2) last by simp
  qed
  have sp: "split_sign (sg @ ds) = (sg \<noteq> [], ds)"
  proof (cases "sg = []")
    case True
    obtain d r where d: "ds = d # r" using assms(2) by (cases ds) auto
    then have "d \<noteq> CHR ''-''" "d \<noteq> CHR ''+''" using isdigit_plain(4,5) [OF hd] by simp_all
    then show ?thesis using True d by (simp add: split_sign_def)
  next
    case False
    then show ?thesis using assms(3) by (simp add: split_sign_def)
  qed
  have u: "ungroup ds = Some ds"
    by (simp add: ungroup_def ungroup_from_plain [OF plain(3)])
  show ?thesis
    unfolding py_int_def f s sp using u assms(1,2) by simp
qed

lemma py_int_int_repr: "py_int (int_repr i) = Inr i"
proof -
  define ds where "ds = nat_repr (nat \<bar>i\<bar>)"
  have all: "list_all isdigit ds" "ds \<noteq> []" using nat_repr_digits by (simp_all add: ds_def)
  have val: "digits_value ds = \<bar>i\<bar>" by (simp add: ds_def digits_value_nat_repr)
  show ?thesis
  proof (cases "i < 0")
    case True
    then have r: "int_repr i = [CHR ''-''] @ ds" by (simp add: int_repr_def ds_def)
    show ?thesis unfolding r using py_int_digits [OF all, of "[CHR ''-'']"] val True by simp
  next
    case False
    then have r: "int_repr i = [] @ ds" by (simp add: int_repr_def ds_def)
    show ?thesis unfolding r using py_int_digits [OF all, of "[]"] val False by simp
  qed
qed

lemma scan_number_int:
  assumes "delimited rest"
  shows "scan_number (int_repr i @ rest) = Some (PInt i, rest)"
  by (simp add: scan_number_def match_number_append [OF assms] match_number_int_repr
        py_int_int_repr)

lemma number_start_plain:
  assumes "number_start c"
  shows "\<not> is_json_ws c" "c \<noteq> CHR 0x22" "c \<noteq> CHR ''{''" "c \<noteq> CHR ''[''" "c \<noteq> CHR '']''"
    "c \<noteq> CHR ''}''" "c \<noteq> CHR ''n''" "c \<noteq> CHR ''t''" "c \<noteq> CHR ''f''"
proof -
  define n where "n = (of_char c :: nat)"
  have n: "n = 45 \<or> (48 \<le> n \<and> n \<le> 57)"
    using assms by (auto simp: number_start_def isdigit_def n_def Let_def)
  have c: "c = char_of n" by (simp add: n_def)
  have ne: "c \<noteq> d" if "(of_char d :: nat) \<noteq> 45" "(of_char d :: nat) < 48 \<or> 57 < (of_char d :: nat)"
    for d using n that unfolding n_def by auto
  show "c \<noteq> CHR 0x22" "c \<noteq> CHR ''{''" "c \<noteq> CHR ''[''" "c \<noteq> CHR '']''"
    "c \<noteq> CHR ''}''" "c \<noteq> CHR ''n''" "c \<noteq> CHR ''t''" "c \<noteq> CHR ''f''"
    by (rule ne; simp)+
  have "c \<noteq> CHR '' ''" "c \<noteq> CHR 0x09" "c \<noteq> CHR 0x0A" "c \<noteq> CHR 0x0D"
    by (rule ne; simp)+
  then show "\<not> is_json_ws c" by (simp add: is_json_ws_def)
qed

lemma scan_integer_start:
  assumes "scan_integer s = Some (i, r)"
  shows "\<exists>c t. s = c # t \<and> number_start c"
proof (cases s)
  case Nil
  then show ?thesis using assms by (simp add: scan_integer_def)
next
  case (Cons c t)
  have "number_start c"
  proof (rule ccontr)
    assume "\<not> number_start c"
    then have "c \<noteq> CHR ''-''" "\<not> isdigit c" by (simp_all add: number_start_def)
    moreover have "c \<noteq> CHR ''0''" using \<open>\<not> isdigit c\<close> by (auto simp: isdigit_def)
    ultimately show False using assms Cons by (simp add: scan_integer_def)
  qed
  then show ?thesis using Cons by simp
qed

lemma match_number_start:
  assumes "match_number s = Some m"
  shows "\<exists>c t. s = c # t \<and> number_start c"
proof -
  obtain i r where "scan_integer s = Some (i, r)"
    using assms by (auto simp: match_number_def split: option.splits)
  then show ?thesis by (rule scan_integer_start)
qed

lemma int_repr_start: "\<exists>c t. int_repr i = c # t \<and> number_start c"
  using match_number_start [OF match_number_int_repr] .

lemma float_text_start:
  assumes "float_text_ok fr q"
  shows "\<exists>c t. fr q = c # t \<and> number_start c"
proof -
  obtain m where "match_number (fr q) = Some m"
    using assms by (auto simp: float_text_ok_def split: option.splits)
  then show ?thesis by (rule match_number_start)
qed

lemma scan_once_number:
  assumes "s = c # t" "number_start c" "scan_number (s @ rest) = Some res"
  shows "scan_once (Suc n) (s @ rest) = Some res"
  using assms(3) number_start_plain [OF assms(2)]
  by (simp add: assms(1))

lemma scan_once_int:
  assumes "delimited rest"
  shows "scan_once (Suc n) (int_repr i @ rest) = Some (PInt i, rest)"
proof -
  obtain c t where s: "int_repr i = c # t" "number_start c" using int_repr_start by blast
  show ?thesis by (rule scan_once_number [OF s scan_number_int [OF assms]])
qed

lemma scan_once_float:
  assumes "float_text_ok fr q" "delimited rest"
  shows "scan_once (Suc n) (fr q @ rest) = Some (PFloat (Dbl q), rest)"
proof -
  obtain c t where s: "fr q = c # t" "number_start c" using float_text_start [OF assms(1)] by blast
  show ?thesis by (rule scan_once_number [OF s scan_number_float [OF assms]])
qed

lemma scan_once_null: "scan_once (Suc n) (''null'' @ rest) = Some (PNone, rest)"
  by simp

lemma scan_once_true: "scan_once (Suc n) (''true'' @ rest) = Some (PBool True, rest)"
  by simp

lemma scan_once_false: "scan_once (Suc n) (''false'' @ rest) = Some (PBool False, rest)"
  by simp

lemma scan_once_inf: "scan_once (Suc n) (''Infinity'' @ rest) = Some (PFloat PosInf, rest)"
  by (simp add: scan_number_def match_number_def scan_integer_def isdigit_def scan_constant_def)

lemma scan_once_neg_inf: "scan_once (Suc n) (''-Infinity'' @ rest) = Some (PFloat NegInf, rest)"
  by (simp add: scan_number_def match_number_def scan_integer_def isdigit_def scan_constant_def)

lemma dict_set_new: "k \<notin> fst ` set d \<Longrightarrow> dict_set k v d = d @ [(k, v)]"
  by (induction d) auto

lemma foldl_dict_set:
  "distinct (map fst (d @ kvs))
     \<Longrightarrow> foldl (\<lambda>d kv. dict_set (fst kv) (snd kv) d) d kvs = d @ kvs"
proof (induction kvs arbitrary: d)
  case Nil
  show ?case by simp
next
  case (Cons kv kvs)
  have "fst kv \<notin> fst ` set d" using Cons.prems by auto
  then have s: "dict_set (fst kv) (snd kv) d = d @ [kv]" by (simp add: dict_set_new)
  have "distinct (map fst ((d @ [kv]) @ kvs))" using Cons.prems by simp
  from Cons.IH [OF this] show ?case by (simp add: s)
qed

lemma dict_of_pairs_distinct: "distinct (map fst kvs) \<Longrightarrow> dict_of_pairs kvs = kvs"
  using foldl_dict_set [of "[]" kvs] by (simp add: dict_of_pairs_def)

lemma number_start_value_start: "number_start c \<Longrightarrow> value_start c"
  by (simp add: value_start_def number_start_plain)

lemma iterencode_start:
  assumes "representable fr v"
  shows "\<exists>c t. iterencode fr l v = c # t \<and> value_start c"
proof (cases v)
  case (PInt i)
  then show ?thesis using int_repr_start [of i] number_start_value_start by auto
next
  case (PFloat x)
  show ?thesis
  proof (cases x)
    case (Dbl q)
    then have "float_text_ok fr q" using assms PFloat by simp
    from float_text_start [OF this] show ?thesis
      using PFloat Dbl number_start_value_start by (auto simp: floatstr_def)
  qed (use assms PFloat in \<open>simp_all add: floatstr_def value_start_def is_json_ws_def\<close>)
qed (simp_all add: value_start_def is_json_ws_def encode_str_def)

lemma iterencode_list_start:
  assumes "representable_list fr vs" "vs \<noteq> []"
  shows "\<exists>c t. iterencode_list fr l vs = c # t \<and> value_start c"
proof -
  obtain v vs' where vs: "vs = v # vs'" using assms(2) by (cases vs) auto
  then have "representable fr v" using assms(1) by simp
  from iterencode_start [OF this, of l] show ?thesis using vs by auto
qed

lemma iterencode_dict_start:
  assumes "kvs \<noteq> []"
  shows "\<exists>t. iterencode_dict fr l kvs = CHR 0x22 # t"
  using assms by (cases kvs) (auto simp: encode_str_def)

lemma skip_ws_start: "value_start c \<Longrightarrow> skip_ws (c # t) = c # t"
  by (simp add: skip_ws_none value_start_def)

lemma delimited_simps [simp]:
  "delimited []" "delimited (CHR '','' # s)" "delimited (newline_indent l @ s)"
  by (simp_all add: delimited_def newline_indent_def)

lemma skip_ws_punct [simp]:
  "skip_ws (CHR '','' # s) = CHR '','' # s" "skip_ws (CHR '']'' # s) = CHR '']'' # s"
  "skip_ws (CHR ''}'' # s) = CHR ''}'' # s" "skip_ws (CHR '':'' # s) = CHR '':'' # s"
  by (simp_all add: skip_ws_def is_json_ws_def)

lemma length_newline_indent: "0 < length (newline_indent l)"
  by (simp add: newline_indent_def)

lemma JSONArray_step:
  assumes "scan_once m (e @ tail) = Some (v, tail)"
    and "tail = newline_indent l' @ CHR '']'' # rest"
  shows "JSONArray (Suc m) (e @ tail) = Some ([v], rest)"
  using assms(1) unfolding assms(2) by simp

lemma JSONArray_more:
  assumes "scan_once m (e @ CHR '','' # newline_indent l @ r) = Some (v, CHR '','' # newline_indent l @ r)"
    and "JSONArray m (skip_ws r) = Some (vs, rest)"
  shows "JSONArray (Suc m) (e @ CHR '','' # newline_indent l @ r) = Some (v # vs, rest)"
  using assms by simp

lemma JSONObject_step:
  assumes "scan_once m (skip_ws (e @ tail)) = Some (v, tail)"
    and "tail = newline_indent l' @ CHR ''}'' # rest"
  shows "JSONObject (Suc m) (encode_str k @ '': '' @ e @ tail) = Some ([(k, v)], rest)"
proof -
  have "encode_str k @ '': '' @ e @ tail
      = CHR 0x22 # concat (map escape_char k) @ CHR 0x22 # (CHR '':'' # CHR '' '' # e @ tail)"
    by (simp add: encode_str_def)
  then show ?thesis
    using assms(1) unfolding assms(2) by (simp add: scanstring_escaped)
qed

lemma JSONObject_more:
  assumes "scan_once m (skip_ws (e @ CHR '','' # newline_indent l @ r))
             = Some (v, CHR '','' # newline_indent l @ r)"
    and "JSONObject m (skip_ws r) = Some (kvs, rest)"
  shows "JSONObject (Suc m) (encode_str k @ '': '' @ e @ CHR '','' # newline_indent l @ r)
           = Some ((k, v) # kvs, rest)"
proof -
  have "encode_str k @ '': '' @ e @ CHR '','' # newline_indent l @ r
      = CHR 0x22 # concat (map escape_char k) @ CHR 0x22
          # (CHR '':'' # CHR '' '' # e @ CHR '','' # newline_indent l @ r)"
    by (simp add: encode_str_def)
  then show ?thesis
    using assms by (simp add: scanstring_escaped)
qed

lemma scan_once_list:
  assumes "JSONArray m (skip_ws r) = Some (vs, rest)" "value_start (hd (skip_ws r))"
    "skip_ws r \<noteq> []"
  shows "scan_once (Suc m) (CHR ''['' # r) = Some (PList vs, rest)"
proof -
  obtain d t where d: "skip_ws r = d # t" using assms(3) by (cases "skip_ws r") auto
  then have "d \<noteq> CHR '']''" using assms(2) by (simp add: value_start_def)
  then show ?thesis using assms(1) d by simp
qed

lemma scan_once_dict:
  assumes "JSONObject m (skip_ws r) = Some (kvs, rest)" "hd (skip_ws r) = CHR 0x22"
    "skip_ws r \<noteq> []"
  shows "scan_once (Suc m) (CHR ''{'' # r) = Some (PDict (dict_of_pairs kvs), rest)"
proof -
  obtain d t where d: "skip_ws r = d # t" using assms(3) by (cases "skip_ws r") auto
  then have "d \<noteq> CHR ''}''" using assms(2) by simp
  then show ?thesis using assms(1) d by simp
qed

lemma skip_ws_iterencode:
  assumes "representable fr v"
  shows "skip_ws (iterencode fr l v @ r) = iterencode fr l v @ r"
proof -
  obtain c t where "iterencode fr l v = c # t" "value_start c"
    using iterencode_start [OF assms] by blast
  then show ?thesis by (simp add: skip_ws_start)
qed

lemma skip_ws_iterencode_list:
  assumes "representable_list fr vs" "vs \<noteq> []"
  shows "skip_ws (newline_indent k @ iterencode_list fr l vs @ r) = iterencode_list fr l vs @ r"
    and "value_start (hd (iterencode_list fr l vs @ r))"
    and "iterencode_list fr l vs @ r \<noteq> []"
proof -
  obtain c t where "iterencode_list fr l vs = c # t" "value_start c"
    using iterencode_list_start [OF assms] by blast
  then show "skip_ws (newline_indent k @ iterencode_list fr l vs @ r) = iterencode_list fr l vs @ r"
    and "value_start (hd (iterencode_list fr l vs @ r))"
    and "iterencode_list fr l vs @ r \<noteq> []"
    by (simp_all add: skip_ws_start)
qed

lemma skip_ws_iterencode_dict:
  assumes "kvs \<noteq> []"
  shows "skip_ws (newline_indent k @ iterencode_dict fr l kvs @ r) = iterencode_dict fr l kvs @ r"
    and "hd (iterencode_dict fr l kvs @ r) = CHR 0x22"
    and "iterencode_dict fr l kvs @ r \<noteq> []"
proof -
  obtain t where "iterencode_dict fr l kvs = CHR 0x22 # t"
    using iterencode_dict_start [OF assms] by blast
  then show "skip_ws (newline_indent k @ iterencode_dict fr l kvs @ r) = iterencode_dict fr l kvs @ r"
    and "hd (iterencode_dict fr l kvs @ r) = CHR 0x22"
    and "iterencode_dict fr l kvs @ r \<noteq> []"
    by (simp_all add: skip_ws_none is_json_ws_def)
qed

lemma scan_encoded:
  "representable fr v \<Longrightarrow> length (iterencode fr l v) \<le> n \<Longrightarrow> delimited rest
     \<Longrightarrow> scan_once n (iterencode fr l v @ rest) = Some (v, rest)"
  "representable_list fr vs \<Longrightarrow> vs \<noteq> [] \<Longrightarrow> length (iterencode_list fr l vs) < n
     \<Longrightarrow> JSONArray n (iterencode_list fr l vs @ newline_indent l' @ CHR '']'' # rest)
           = Some (vs, rest)"
  "representable_dict fr kvs \<Longrightarrow> kvs \<noteq> [] \<Longrightarrow> length (iterencode_dict fr l kvs) < n
     \<Longrightarrow> JSONObject n (iterencode_dict fr l kvs @ newline_indent l' @ CHR ''}'' # rest)
           = Some (kvs, rest)"
proof (induction fr l v and fr l vs and fr l kvs arbitrary: n rest and n rest l' and n rest l'
    rule: iterencode_iterencode_list_iterencode_dict.induct)
  case (1 fr level)
  then obtain m where "n = Suc m" by (cases n) auto
  then show ?case by simp
next
  case (2 fr level b)
  then obtain m where "n = Suc m" by (cases n) (auto split: if_splits)
  then show ?case by simp
next
  case (3 fr level i)
  obtain c t where "int_repr i = c # t" using int_repr_start by blast
  then obtain m where "n = Suc m" using 3 by (cases n) auto
  then show ?case using scan_once_int [OF 3(3)] by simp
next
  case (4 fr level v)
  show ?case
  proof (cases v)
    case (Dbl q)
    then have ok: "float_text_ok fr q" using 4 by simp
    obtain c t where "fr q = c # t" using float_text_start [OF ok] by blast
    then obtain m where "n = Suc m" using 4 Dbl by (cases n) (auto simp: floatstr_def)
    then show ?thesis using scan_once_float [OF ok 4(3)] Dbl by (simp add: floatstr_def)
  next
    case PosInf
    then obtain m where "n = Suc m" using 4 by (cases n) (auto simp: floatstr_def)
    then show ?thesis using scan_once_inf PosInf by (simp add: floatstr_def)
  next
    case NegInf
    then obtain m where "n = Suc m" using 4 by (cases n) (auto simp: floatstr_def)
    then show ?thesis using scan_once_neg_inf NegInf by (simp add: floatstr_def)
  next
    case NaN
    then show ?thesis using 4 by simp
  qed
next
  case (5 fr level s)
  then obtain m where "n = Suc m" by (cases n) (auto simp: encode_str_def)
  then show ?case using scan_once_str by simp
next
  case (6 fr level vs)
  show ?case
  proof (cases "vs = []")
    case True
    then obtain m where "n = Suc m" using 6 by (cases n) auto
    then show ?thesis using True by simp
  next
    case False
    define L where "L = iterencode_list fr (level + 1) vs"
    define r where "r = newline_indent (level + 1) @ L @ newline_indent level @ CHR '']'' # rest"
    have enc: "iterencode fr level (PList vs) @ rest = CHR ''['' # r"
      using False by (simp add: L_def r_def)
    have len: "length (iterencode fr level (PList vs))
        = length L + length (newline_indent (level + 1)) + length (newline_indent level) + 2"
      using False by (simp add: L_def)
    obtain m where n: "n = Suc m" using 6(3) len by (cases n) auto
    have lt: "length L < m"
      using 6(3) len n length_newline_indent [of level] length_newline_indent [of "level + 1"]
      by linarith
    have wf: "representable_list fr vs" using 6(2) by simp
    have sk: "skip_ws r = L @ newline_indent level @ CHR '']'' # rest"
        "value_start (hd (L @ newline_indent level @ CHR '']'' # rest))"
        "L @ newline_indent level @ CHR '']'' # rest \<noteq> []"
      unfolding r_def L_def by (rule skip_ws_iterencode_list [OF wf False])+
    have "JSONArray m (skip_ws r) = Some (vs, rest)"
      unfolding sk(1) L_def by (rule 6(1) [OF False wf False lt [unfolded L_def]])
    from scan_once_list [OF this] sk(2,3) show ?thesis
      unfolding enc n sk(1) by simp
  qed
next
  case (7 fr level kvs)
  show ?case
  proof (cases "kvs = []")
    case True
    then obtain m where "n = Suc m" using 7 by (cases n) auto
    then show ?thesis using True by simp
  next
    case False
    define L where "L = iterencode_dict fr (level + 1) kvs"
    define r where "r = newline_indent (level + 1) @ L @ newline_indent level @ CHR ''}'' # rest"
    have enc: "iterencode fr level (PDict kvs) @ rest = CHR ''{'' # r"
      using False by (simp add: L_def r_def)
    have len: "length (iterencode fr level (PDict kvs))
        = length L + length (newline_indent (level + 1)) + length (newline_indent level) + 2"
      using False by (simp add: L_def)
    obtain m where n: "n = Suc m" using 7(3) len by (cases n) auto
    have lt: "length L < m"
      using 7(3) len n length_newline_indent [of level] length_newline_indent [of "level + 1"]
      by linarith
    have wf: "representable_dict fr kvs" "distinct (map fst kvs)" using 7(2) by simp_all
    have sk: "skip_ws r = L @ newline_indent level @ CHR ''}'' # rest"
        "hd (L @ newline_indent level @ CHR ''}'' # rest) = CHR 0x22"
        "L @ newline_indent level @ CHR ''}'' # rest \<noteq> []"
      unfolding r_def L_def by (rule skip_ws_iterencode_dict [OF False])+
    have "JSONObject m (skip_ws r) = Some (kvs, rest)"
      unfolding sk(1) L_def by (rule 7(1) [OF False wf(1) False lt [unfolded L_def]])
    from scan_once_dict [OF this] sk(2,3) show ?thesis
      unfolding enc n sk(1) by (simp add: dict_of_pairs_distinct [OF wf(2)])
  qed
next
  case (8 fr level)
  then show ?case by simp
next
  case (9 fr level v vs)
  define E where "E = iterencode fr level v"
  obtain m where n: "n = Suc m" using 9(5) by (cases n) auto
  have wf: "representable fr v" "representable_list fr vs" using 9(3) by simp_all
  show ?case
  proof (cases "vs = []")
    case True
    define tail where "tail = newline_indent l' @ CHR '']'' # rest"
    have le: "length (iterencode fr level v) \<le> m" using 9(5) n True by simp
    have "scan_once m (E @ tail) = Some (v, tail)"
      unfolding E_def tail_def by (rule 9(1) [OF wf(1) le]) simp
    from JSONArray_step [OF this tail_def] show ?thesis
      using True by (simp add: n E_def tail_def)
  next
    case False
    define r where "r = iterencode_list fr level vs @ newline_indent l' @ CHR '']'' # rest"
    have le: "length (iterencode fr level v) \<le> m" "length (iterencode_list fr level vs) < m"
      using 9(5) n False by simp_all
    have 1: "scan_once m (E @ CHR '','' # newline_indent level @ r)
        = Some (v, CHR '','' # newline_indent level @ r)"
      unfolding E_def by (rule 9(1) [OF wf(1) le(1)]) simp
    have "skip_ws (newline_indent level @ r) = r"
      unfolding r_def by (rule skip_ws_iterencode_list(1) [OF wf(2) False])
    then have sk: "skip_ws r = r" by simp
    have "JSONArray m r = Some (vs, rest)"
      unfolding r_def by (rule 9(2) [OF False wf(2) False le(2)])
    then have 2: "JSONArray m (skip_ws r) = Some (vs, rest)" by (simp only: sk)
    from JSONArray_more [OF 1 2] show ?thesis
      using False by (simp add: n E_def r_def)
  qed
next
  case (10 fr level)
  then show ?case by simp
next
  case (11 fr level kv kvs)
  define E where "E = iterencode fr level (snd kv)"
  obtain m where n: "n = Suc m" using 11(5) by (cases n) auto
  have wf: "representable fr (snd kv)" "representable_dict fr kvs" using 11(3) by simp_all
  have kv: "kv = (fst kv, snd kv)" by simp
  show ?case
  proof (cases "kvs = []")
    case True
    define tail where "tail = newline_indent l' @ CHR ''}'' # rest"
    have le: "length (iterencode fr level (snd kv)) \<le> m" using 11(5) n True by simp
    have "scan_once m (E @ tail) = Some (snd kv, tail)"
      unfolding E_def tail_def by (rule 11(1) [OF wf(1) le]) simp
    then have "scan_once m (skip_ws (E @ tail)) = Some (snd kv, tail)"
      unfolding E_def by (simp only: skip_ws_iterencode [OF wf(1)])
    from JSONObject_step [OF this tail_def, of "fst kv"] show ?thesis
      using True by (simp add: n E_def tail_def)
  next
    case False
    define r where "r = iterencode_dict fr level kvs @ newline_indent l' @ CHR ''}'' # rest"
    have le: "length (iterencode fr level (snd kv)) \<le> m"
        "length (iterencode_dict fr level kvs) < m"
      using 11(5) n False by simp_all
    have "scan_once m (E @ CHR '','' # newline_indent level @ r)
        = Some (snd kv, CHR '','' # newline_indent level @ r)"
      unfolding E_def by (rule 11(1) [OF wf(1) le(1)]) simp
    then have 1: "scan_once m (skip_ws (E @ CHR '','' # newline_indent level @ r))
        = Some (snd kv, CHR '','' # newline_indent level @ r)"
      unfolding E_def by (simp only: skip_ws_iterencode [OF wf(1)])
    have "skip_ws (newline_indent level @ r) = r"
      unfolding r_def by (rule skip_ws_iterencode_dict(1) [OF False])
    then have sk: "skip_ws r = r" by simp
    have "JSONObject m r = Some (kvs, rest)"
      unfolding r_def by (rule 11(2) [OF False wf(2) False le(2)])
    then have 2: "JSONObject m (skip_ws r) = Some (kvs, rest)" by (simp only: sk)
    from JSONObject_more [OF 1 2, of "fst kv"] show ?thesis
      using False by (simp add: n E_def r_def)
  qed
qed

lemma json_loads_json_dumps:
  assumes "representable fr v"
  shows "json_loads (json_dumps fr v) = Inr v"
proof -
  define s where "s = iterencode fr 0 v"
  have sk: "skip_ws s = s"
    using skip_ws_iterencode [OF assms, of 0 "[]"] by (simp add: s_def)
  have "scan_once (Suc (length s)) (s @ []) = Some (v, [])"
    unfolding s_def by (rule scan_encoded(1) [OF assms]) simp_all
  then have sc: "scan_once (Suc (length s)) s = Some (v, [])" by simp
  show ?thesis
    unfolding json_loads_def json_dumps_def s_def [symmetric] sk sc
    by (simp add: skip_ws_def)
qed

lemma as_entries_dicts: "as_entries (PList (map PDict es)) = Some es"
  by (induction es) simp_all

lemma float_text_ok_whole:
  "float_text_ok repr_whole 100" "float_text_ok repr_whole 1"
proof -
  have r: "repr_whole 100 = ''100.0''" "repr_whole 1 = ''1.0''"
    by code_simp+
  have m: "match_number ''100.0'' = Some (''100'', ''.0'', [], [])"
      "match_number ''1.0'' = Some (''1'', ''.0'', [], [])"
    by (simp_all add: match_number_def scan_integer_def scan_fraction_def scan_exponent_def
        isdigit_def)
  have f: "py_float ''100.0'' = Inr (Dbl 100)" "py_float ''1.0'' = Inr (Dbl 1)"
    by code_simp+
  show "float_text_ok repr_whole 100" "float_text_ok repr_whole 1"
    by (simp_all add: float_text_ok_def r m f)
qed

lemma stored_manual_representable:
  "representable repr_whole (PList (map PDict (entries stored_manual)))"
  by (simp add: stored_manual_def float_text_ok_whole int_text_ok_def nat_repr.simps)

text \<open>
  C7. Round trip. Take a catalogue whose entries are representable: in every dict the
  keys are distinct, every int is within the interpreter's limit on conversions between
  int and text, every finite float has a \<open>repr\<close> that is a JSON number with a fraction
  or an exponent and that \<open>float\<close> reads back to the same value, and no float is NaN
  (which \<open>json.dumps\<close> writes, but which is equal to nothing, itself included).
  Then \<open>to_json\<close> leaves the catalogue as it is, and \<open>load_json\<close> on the text it
  returns, in any catalogue, decodes without an error and sets the entries to a
  sequence equal to the original one: the same entries in the same order, each with
  the same fields and the same values.
\<close>

theorem to_json_load_json_round_trip:
  assumes "representable fr (PList (map PDict (entries sm)))"
  shows "snd (to_json fr sm) = sm
     \<and> load_json (fst (to_json fr sm)) sm' = Loaded (sm'\<lparr>entries := entries sm\<rparr>)"
  using json_loads_json_dumps [OF assms]
  by (simp add: to_json_def load_json_def as_entries_dicts del: as_entries.simps)

theorem to_json_load_json_round_trip_witness:
  "load_json (fst (to_json repr_whole stored_manual)) init_ShopManual = Loaded stored_manual
     \<and> entries stored_manual \<noteq> []"
  using to_json_load_json_round_trip [OF stored_manual_representable, where sm' = init_ShopManual]
  by (simp add: init_ShopManual_def stored_manual_def)

end
